theory Spec2Isabelle
  imports Main "HOL-Library.Word" "HOL-Library.Multiset"
begin

section \<open>The buffer cache of kernel/bio.c\<close>

text \<open>
  The cache is a fixed array \<open>bcache.buf[NBUF]\<close> of \<open>struct buf\<close>, sharded over
  \<open>NBUK\<close> buckets; each bucket owns a spinlock and a dummy head whose \<open>next\<close> field starts a
  singly linked, null-terminated chain of buffers. The model keeps the pointers: a
  \<open>struct buf *\<close> that points into the array is the index of the buffer, the null pointer
  is \<open>None\<close>, and the memory of the array is a function from indices to buffers.

  \<open>NBUF\<close> comes from param.h, which is not among the sources: it is the parameter \<open>nbuf\<close>.
  bio.c defines \<open>NBUK\<close> as 13; the functions take the number of buckets as the parameter
  \<open>nbuk\<close>, so that a cache of one bucket can be stated as well (\<open>hash\<close> wants \<open>0 < nbuk\<close>).
  The global \<open>ticks\<close>, advanced by the timer, is passed to the functions that read it.
  Calls run one at a time, each as the statements of its body in the order of the source.
\<close>

subsection \<open>Data\<close>

type_synonym uint = "32 word"
type_synonym uchar = "8 word"

text \<open>How a call can fail to return a value.\<close>

datatype error =
    Panic string  \<comment> \<open>\<open>panic(msg)\<close>\<close>
  | NullDeref     \<comment> \<open>a field of the null pointer is read: undefined behaviour\<close>
  | BadIndex      \<comment> \<open>\<open>bcache.buckets[-1]\<close> is accessed: undefined behaviour\<close>
  | Diverges      \<comment> \<open>a list walk never reaches the null pointer\<close>
  | Blocks        \<comment> \<open>the caller waits for a lock that is held\<close>

text \<open>
  \<open>struct buf\<close> (buf.h, not among the sources; the fields are the ones bio.c uses).
  \<open>dev\<close>, \<open>blockno\<close> and \<open>refcnt\<close> are \<open>uint\<close>; \<open>timestamp\<close> is assigned from the
  \<open>uint\<close> counter \<open>ticks\<close> and is taken to be \<open>uint\<close> as well. \<open>valid\<close> is an \<open>int\<close> used
  as a flag. The sleep-lock \<open>lock\<close> is the field \<open>slk\<close>: the pid of its holder.
\<close>

record buf =
  valid :: bool
  dev :: uint
  blockno :: uint
  slk :: "nat option"
  refcnt :: uint
  nxt :: "nat option"
  timestamp :: uint
  data :: "uchar list"

text \<open>A \<open>struct buf *\<close> used as \<open>prev_b\<close>: the head of a bucket or a buffer of the array.\<close>

datatype bptr = HeadOf nat | BufAt nat

datatype spinlock = BcacheLock | BucketLock nat

datatype io = DiskRead uint uint | DiskWrite uint uint

text \<open>
  The global \<open>bcache\<close>: its spinlocks (\<open>bcache.lock\<close> and \<open>bcache.buckets[i].lock\<close>), the
  array \<open>bcache.buf\<close>, and \<open>bcache.buckets[i].head.next\<close>. The disk behind
  \<open>virtio_disk_rw\<close> and the trace of its transfers are carried along.
\<close>

record bcache =
  spin :: "spinlock \<Rightarrow> bool"
  bufs :: "nat \<Rightarrow> buf"
  heads :: "nat \<Rightarrow> nat option"
  disk :: "uint \<Rightarrow> uint \<Rightarrow> uchar list"
  io_log :: "io list"

definition NBUK :: nat where
  "NBUK = 13"

text \<open>\<open>#define hash(dev, blockno) ((dev * blockno) % NBUK)\<close>, on \<open>uint\<close>: the product wraps.\<close>

definition hash :: "nat \<Rightarrow> uint \<Rightarrow> uint \<Rightarrow> nat" where
  "hash nbuk d n = unat (d * n) mod nbuk"

subsection \<open>Locks and the disk\<close>

text \<open>
  Modelled from the spec: the spinlock primitives of spinlock.c (\<open>initlock\<close>, \<open>acquire\<close>,
  \<open>release\<close>), which are not among the sources. The spec gives a short-hold lock with
  acquire and release; acquiring a lock that is held cannot complete.
\<close>

definition initlock :: "spinlock \<Rightarrow> bcache \<Rightarrow> bcache" where
  "initlock l s = s\<lparr>spin := (spin s)(l := False)\<rparr>"

definition acquire :: "spinlock \<Rightarrow> bcache \<Rightarrow> error + bcache" where
  "acquire l s = (if spin s l then Inl Blocks else Inr (s\<lparr>spin := (spin s)(l := True)\<rparr>))"

definition release :: "spinlock \<Rightarrow> bcache \<Rightarrow> bcache" where
  "release l s = s\<lparr>spin := (spin s)(l := False)\<rparr>"

definition upd_buf :: "nat \<Rightarrow> (buf \<Rightarrow> buf) \<Rightarrow> bcache \<Rightarrow> bcache" where
  "upd_buf b f s = s\<lparr>bufs := (bufs s)(b := f (bufs s b))\<rparr>"

text \<open>
  Modelled from the spec: the sleep-lock primitives of sleeplock.c (\<open>initsleeplock\<close>,
  \<open>acquiresleep\<close>, \<open>releasesleep\<close>, \<open>holdingsleep\<close>), which are not among the sources. The
  spec gives an exclusive lock per slot whose acquisition may suspend the caller; a caller
  holds it from the moment \<open>acquiresleep\<close> returns until \<open>releasesleep\<close>.
\<close>

definition initsleeplock :: "nat \<Rightarrow> bcache \<Rightarrow> bcache" where
  "initsleeplock b s = upd_buf b (\<lambda>x. x\<lparr>slk := None\<rparr>) s"

definition acquiresleep :: "nat \<Rightarrow> nat \<Rightarrow> bcache \<Rightarrow> bcache option" where
  "acquiresleep pid b s =
     (case slk (bufs s b) of
        None \<Rightarrow> Some (upd_buf b (\<lambda>x. x\<lparr>slk := Some pid\<rparr>) s)
      | Some _ \<Rightarrow> None)"

definition releasesleep :: "nat \<Rightarrow> bcache \<Rightarrow> bcache" where
  "releasesleep b s = upd_buf b (\<lambda>x. x\<lparr>slk := None\<rparr>) s"

definition holdingsleep :: "nat \<Rightarrow> nat \<Rightarrow> bcache \<Rightarrow> bool" where
  "holdingsleep pid b s = (slk (bufs s b) = Some pid)"

text \<open>
  Modelled from the spec: \<open>virtio_disk_rw(b, write)\<close> of virtio_disk.c, which is not among
  the sources. The spec gives a synchronous transfer of the block named by the buffer's
  identity, into the buffer's content or out of it.
\<close>

definition virtio_disk_rw :: "nat \<Rightarrow> bool \<Rightarrow> bcache \<Rightarrow> bcache" where
  "virtio_disk_rw b write s =
     (let d = dev (bufs s b); n = blockno (bufs s b) in
      if write
      then s\<lparr>disk := (disk s)(d := (disk s d)(n := data (bufs s b))),
             io_log := io_log s @ [DiskWrite d n]\<rparr>
      else (upd_buf b (\<lambda>x. x\<lparr>data := disk s d n\<rparr>) s)\<lparr>io_log := io_log s @ [DiskRead d n]\<rparr>)"

subsection \<open>Pointer access\<close>

fun next_of :: "bcache \<Rightarrow> bptr \<Rightarrow> nat option" where
  "next_of s (HeadOf i) = heads s i"
| "next_of s (BufAt a) = nxt (bufs s a)"

fun set_next :: "bptr \<Rightarrow> nat option \<Rightarrow> bcache \<Rightarrow> bcache" where
  "set_next (HeadOf i) v s = s\<lparr>heads := (heads s)(i := v)\<rparr>"
| "set_next (BufAt a) v s = upd_buf a (\<lambda>x. x\<lparr>nxt := v\<rparr>) s"

subsection \<open>binit\<close>

text \<open>
  The inner loop of \<open>binit\<close> (lines 63-73) over the buffers \<open>b\<close>, with \<open>prev_b\<close> carried
  along. Only the last buffer has its own \<open>next\<close> cleared; every other \<open>next\<close> is written
  by the following iteration through \<open>prev_b\<close>.
\<close>

fun binit_bufs :: "nat list \<Rightarrow> nat \<Rightarrow> uint \<Rightarrow> bptr \<Rightarrow> bcache \<Rightarrow> bcache" where
  "binit_bufs [] nbuf ticks prev_b s = s"
| "binit_bufs (b # bs) nbuf ticks prev_b s =
     (let s1 = (if Suc b = nbuf then set_next (BufAt b) None s else s);
          s2 = set_next prev_b (Some b) s1;
          s3 = upd_buf b (\<lambda>x. x\<lparr>timestamp := ticks\<rparr>) s2;
          s4 = initsleeplock b s3
      in binit_bufs bs nbuf ticks (BufAt b) s4)"

text \<open>The outer loop (lines 55-75) over the buckets.\<close>

fun binit_buckets :: "nat list \<Rightarrow> nat \<Rightarrow> uint \<Rightarrow> bcache \<Rightarrow> bcache" where
  "binit_buckets [] nbuf ticks s = s"
| "binit_buckets (i # is) nbuf ticks s =
     (let s1 = initlock (BucketLock i) s;
          s2 = set_next (HeadOf i) None s1;
          s3 = (if i = 0 then binit_bufs [0..<nbuf] nbuf ticks (HeadOf i) s2 else s2)
      in binit_buckets is nbuf ticks s3)"

definition binit :: "nat \<Rightarrow> nat \<Rightarrow> uint \<Rightarrow> bcache \<Rightarrow> bcache" where
  "binit nbuf nbuk ticks s = binit_buckets [0..<nbuk] nbuf ticks (initlock BcacheLock s)"

text \<open>
  \<open>bcache\<close> has static storage: before \<open>binit\<close> runs every field of every buffer is zero.
  The content of a block is \<open>BSIZE\<close> bytes (fs.h, not among the sources), a parameter here.
\<close>

definition buf_zero :: "nat \<Rightarrow> buf" where
  "buf_zero bsize =
     \<lparr>valid = False, dev = 0, blockno = 0, slk = None, refcnt = 0, nxt = None,
      timestamp = 0, data = replicate bsize 0\<rparr>"

definition bcache_zero :: "nat \<Rightarrow> (uint \<Rightarrow> uint \<Rightarrow> uchar list) \<Rightarrow> bcache" where
  "bcache_zero bsize dsk =
     \<lparr>spin = (\<lambda>_. False), bufs = (\<lambda>_. buf_zero bsize), heads = (\<lambda>_. None),
      disk = dsk, io_log = []\<rparr>"

definition boot :: "nat \<Rightarrow> nat \<Rightarrow> uint \<Rightarrow> (uint \<Rightarrow> uint \<Rightarrow> uchar list) \<Rightarrow> bcache" where
  "boot nbuf nbuk ticks dsk = binit nbuf nbuk ticks (bcache_zero 1024 dsk)"

subsection \<open>bget\<close>

text \<open>
  The walk \<open>for (b = head.next; b; b = b->next)\<close> that looks for the buffer of block
  \<open>(dev, blockno)\<close>: lines 94-103, and again lines 164-176. It does not return on a chain
  that is cyclic and holds no match.
\<close>

partial_function (option) find_blk :: "bcache \<Rightarrow> nat option \<Rightarrow> uint \<Rightarrow> uint \<Rightarrow> nat option option" where
  "find_blk s b d n =
     (case b of
        None \<Rightarrow> Some None
      | Some a \<Rightarrow>
          if dev (bufs s a) = d \<and> blockno (bufs s a) = n then Some (Some a)
          else find_blk s (nxt (bufs s a)) d n)"

declare find_blk.simps [code]

text \<open>
  The locals of the eviction scan. \<open>max_timestamp\<close> is an \<open>int\<close> that only ever holds a
  \<open>uint\<close> timestamp and is compared with one, so the comparison is unsigned.
\<close>

record scan_vars =
  max_timestamp :: uint
  lru_buk_id :: int
  is_better :: bool
  prev_lru_b :: "bptr option"

text \<open>The inner loop \<open>while (prev_b->next)\<close>, lines 122-131.\<close>

partial_function (option) scan_chain :: "bcache \<Rightarrow> bptr \<Rightarrow> scan_vars \<Rightarrow> scan_vars option" where
  "scan_chain s prev_b v =
     (case next_of s prev_b of
        None \<Rightarrow> Some v
      | Some n \<Rightarrow>
          scan_chain s (BufAt n)
            (if refcnt (bufs s n) = 0 \<and> max_timestamp v \<le> timestamp (bufs s n)
             then v\<lparr>max_timestamp := timestamp (bufs s n), is_better := True,
                    prev_lru_b := Some prev_b\<rparr>
             else v))"

declare scan_chain.simps [code]

text \<open>The outer loop \<open>for (int i = 0; i < NBUK; ++i)\<close>, lines 118-144.\<close>

fun scan_buckets :: "nat list \<Rightarrow> bcache \<Rightarrow> scan_vars \<Rightarrow> error + (bcache \<times> scan_vars)" where
  "scan_buckets [] s v = Inr (s, v)"
| "scan_buckets (i # is) s v =
     (case acquire (BucketLock i) s of
        Inl e \<Rightarrow> Inl e
      | Inr s1 \<Rightarrow>
          (case scan_chain s1 (HeadOf i) v of
             None \<Rightarrow> Inl Diverges
           | Some v1 \<Rightarrow>
               if is_better v1
               then scan_buckets is
                      (if lru_buk_id v1 \<noteq> - 1
                       then release (BucketLock (nat (lru_buk_id v1))) s1 else s1)
                      (v1\<lparr>lru_buk_id := int i, is_better := False\<rparr>)
               else scan_buckets is (release (BucketLock i) s1) (v1\<lparr>is_better := False\<rparr>)))"

definition scan_init :: scan_vars where
  "scan_init = \<lparr>max_timestamp = 0, lru_buk_id = - 1, is_better = False, prev_lru_b = None\<rparr>"

text \<open>
  Lines 146-152: \<open>lru_b = prev_lru_b->next\<close>, read through \<open>prev_lru_b\<close> whatever the scan
  found, then the victim is unlinked and the lock of its bucket released.
\<close>

definition bget_steal :: "bcache \<Rightarrow> scan_vars \<Rightarrow> error + (bcache \<times> nat option)" where
  "bget_steal s v =
     (case prev_lru_b v of
        None \<Rightarrow> Inl NullDeref
      | Some p \<Rightarrow>
          (case next_of s p of
             None \<Rightarrow> Inr (s, None)
           | Some b \<Rightarrow>
               if lru_buk_id v = - 1 then Inl BadIndex
               else Inr (release (BucketLock (nat (lru_buk_id v)))
                           (set_next p (nxt (bufs s b)) s), Some b)))"

text \<open>
  Lines 158-159: \<open>lru_b->next = bcache.buckets[buk_id].head.next;
  bcache.buckets[buk_id].head.next = lru_b;\<close>
\<close>

definition relink :: "nat \<Rightarrow> nat \<Rightarrow> bcache \<Rightarrow> bcache" where
  "relink h a s = set_next (HeadOf h) (Some a) (set_next (BufAt a) (heads s h) s)"

text \<open>
  Lines 154-186: under \<open>bcache.lock\<close> and the lock of the target bucket, the victim is
  linked at the head of the target bucket, the bucket is searched again, and the victim is
  given its new identity when the search finds nothing. The result is the buffer that
  \<open>bget\<close> goes on to lock and return.
\<close>

definition bget_install :: "nat \<Rightarrow> bcache \<Rightarrow> nat option \<Rightarrow> uint \<Rightarrow> uint \<Rightarrow> error + (nat \<times> bcache)" where
  "bget_install buk_id s lru_b d n =
     (case acquire BcacheLock s of
        Inl e \<Rightarrow> Inl e
      | Inr s1 \<Rightarrow>
     (case acquire (BucketLock buk_id) s1 of
        Inl e \<Rightarrow> Inl e
      | Inr s2 \<Rightarrow>
          (let s3 = (case lru_b of None \<Rightarrow> s2 | Some l \<Rightarrow> relink buk_id l s2)
           in case find_blk s3 (heads s3 buk_id) d n of
                None \<Rightarrow> Inl Diverges
              | Some (Some b) \<Rightarrow>
                  Inr (b, release BcacheLock (release (BucketLock buk_id)
                            (upd_buf b (\<lambda>x. x\<lparr>refcnt := refcnt x + 1\<rparr>) s3)))
              | Some None \<Rightarrow>
                  (case lru_b of
                     None \<Rightarrow> Inl (Panic ''bget: no buffers'')
                   | Some l \<Rightarrow>
                       Inr (l, release BcacheLock (release (BucketLock buk_id)
                                 (upd_buf l (\<lambda>x. x\<lparr>dev := d, blockno := n, valid := False,
                                                   refcnt := 1\<rparr>) s3)))))))"

text \<open>Lines 110-186, the slow path after a miss.\<close>

definition bget_slow :: "nat \<Rightarrow> bcache \<Rightarrow> uint \<Rightarrow> uint \<Rightarrow> error + (nat \<times> bcache)" where
  "bget_slow nbuk s d n =
     (case scan_buckets [0..<nbuk] s scan_init of
        Inl e \<Rightarrow> Inl e
      | Inr (s1, v) \<Rightarrow>
          (case bget_steal s1 v of
             Inl e \<Rightarrow> Inl e
           | Inr (s2, lru_b) \<Rightarrow> bget_install (hash nbuk d n) s2 lru_b d n))"

text \<open>Lines 90-104, the fast path: \<open>None\<close> is a miss, left with the bucket lock released.\<close>

definition bget_fast :: "nat \<Rightarrow> bcache \<Rightarrow> uint \<Rightarrow> uint \<Rightarrow> error + (nat option \<times> bcache)" where
  "bget_fast nbuk s d n =
     (let buk_id = hash nbuk d n in
      case acquire (BucketLock buk_id) s of
        Inl e \<Rightarrow> Inl e
      | Inr s1 \<Rightarrow>
          (case find_blk s1 (heads s1 buk_id) d n of
             None \<Rightarrow> Inl Diverges
           | Some (Some b) \<Rightarrow>
               Inr (Some b, release (BucketLock buk_id)
                              (upd_buf b (\<lambda>x. x\<lparr>refcnt := refcnt x + 1\<rparr>) s1))
           | Some None \<Rightarrow> Inr (None, release (BucketLock buk_id) s1)))"

text \<open>
  \<open>bget\<close> up to its last two statements: the buffer chosen for \<open>(dev, blockno)\<close>, with every
  spinlock released.
\<close>

definition bget_pick :: "nat \<Rightarrow> bcache \<Rightarrow> uint \<Rightarrow> uint \<Rightarrow> error + (nat \<times> bcache)" where
  "bget_pick nbuk s d n =
     (case bget_fast nbuk s d n of
        Inl e \<Rightarrow> Inl e
      | Inr (Some b, s1) \<Rightarrow> Inr (b, s1)
      | Inr (None, s1) \<Rightarrow> bget_slow nbuk s1 d n)"

text \<open>
  \<open>bget(dev, blockno)\<close> called by process \<open>pid\<close>: each of the three exits ends with
  \<open>acquiresleep(&b->lock); return b;\<close>.
\<close>

definition bget :: "nat \<Rightarrow> nat \<Rightarrow> bcache \<Rightarrow> uint \<Rightarrow> uint \<Rightarrow> error + (nat \<times> bcache)" where
  "bget nbuk pid s d n =
     (case bget_pick nbuk s d n of
        Inl e \<Rightarrow> Inl e
      | Inr (b, s1) \<Rightarrow>
          (case acquiresleep pid b s1 of
             None \<Rightarrow> Inl Blocks
           | Some s2 \<Rightarrow> Inr (b, s2)))"

subsection \<open>bread, bwrite, brelse, bpin, bunpin\<close>

text \<open>Lines 192-205.\<close>

definition bread :: "nat \<Rightarrow> nat \<Rightarrow> bcache \<Rightarrow> uint \<Rightarrow> uint \<Rightarrow> error + (nat \<times> bcache)" where
  "bread nbuk pid s d n =
     (case bget nbuk pid s d n of
        Inl e \<Rightarrow> Inl e
      | Inr (b, s1) \<Rightarrow>
          if \<not> valid (bufs s1 b)
          then Inr (b, upd_buf b (\<lambda>x. x\<lparr>valid := True\<rparr>) (virtio_disk_rw b False s1))
          else Inr (b, s1))"

text \<open>Lines 208-214.\<close>

definition bwrite :: "nat \<Rightarrow> bcache \<Rightarrow> nat \<Rightarrow> error + bcache" where
  "bwrite pid s b =
     (if \<not> holdingsleep pid b s then Inl (Panic ''bwrite'')
      else Inr (virtio_disk_rw b True s))"

text \<open>
  Lines 220-236. \<open>ticks\<close> is the value of the global tick counter when \<open>brelse\<close> reads it.
\<close>

definition brelse :: "nat \<Rightarrow> nat \<Rightarrow> uint \<Rightarrow> bcache \<Rightarrow> nat \<Rightarrow> error + bcache" where
  "brelse nbuk pid ticks s b =
     (if \<not> holdingsleep pid b s then Inl (Panic ''brelse'')
      else
        (let s1 = releasesleep b s;
             buk_id = hash nbuk (dev (bufs s1 b)) (blockno (bufs s1 b))
         in case acquire (BucketLock buk_id) s1 of
              Inl e \<Rightarrow> Inl e
            | Inr s2 \<Rightarrow>
                (let s3 = upd_buf b (\<lambda>x. x\<lparr>refcnt := refcnt x - 1\<rparr>) s2;
                     s4 = (if refcnt (bufs s3 b) = 0
                           then upd_buf b (\<lambda>x. x\<lparr>timestamp := ticks\<rparr>) s3 else s3)
                 in Inr (release (BucketLock buk_id) s4))))"

text \<open>Lines 238-245 and 247-254.\<close>

definition bpin :: "nat \<Rightarrow> bcache \<Rightarrow> nat \<Rightarrow> error + bcache" where
  "bpin nbuk s b =
     (let buk_id = hash nbuk (dev (bufs s b)) (blockno (bufs s b)) in
      case acquire (BucketLock buk_id) s of
        Inl e \<Rightarrow> Inl e
      | Inr s1 \<Rightarrow>
          Inr (release (BucketLock buk_id) (upd_buf b (\<lambda>x. x\<lparr>refcnt := refcnt x + 1\<rparr>) s1)))"

definition bunpin :: "nat \<Rightarrow> bcache \<Rightarrow> nat \<Rightarrow> error + bcache" where
  "bunpin nbuk s b =
     (let buk_id = hash nbuk (dev (bufs s b)) (blockno (bufs s b)) in
      case acquire (BucketLock buk_id) s of
        Inl e \<Rightarrow> Inl e
      | Inr s1 \<Rightarrow>
          Inr (release (BucketLock buk_id) (upd_buf b (\<lambda>x. x\<lparr>refcnt := refcnt x - 1\<rparr>) s1)))"

subsection \<open>Sequences of calls\<close>

text \<open>
  A complete call of one of the operations, as one step on the cache. \<open>Brelse\<close> carries the
  value of \<open>ticks\<close> at the time of the call.
\<close>

datatype call =
    Bget nat uint uint
  | Bread nat uint uint
  | Bwrite nat nat
  | Brelse nat uint nat
  | Bpin nat
  | Bunpin nat

fun do_call :: "nat \<Rightarrow> call \<Rightarrow> bcache \<Rightarrow> error + bcache" where
  "do_call nbuk (Bget pid d n) s =
     (case bget nbuk pid s d n of Inl e \<Rightarrow> Inl e | Inr (b, s') \<Rightarrow> Inr s')"
| "do_call nbuk (Bread pid d n) s =
     (case bread nbuk pid s d n of Inl e \<Rightarrow> Inl e | Inr (b, s') \<Rightarrow> Inr s')"
| "do_call nbuk (Bwrite pid b) s = bwrite pid s b"
| "do_call nbuk (Brelse pid ticks b) s = brelse nbuk pid ticks s b"
| "do_call nbuk (Bpin b) s = bpin nbuk s b"
| "do_call nbuk (Bunpin b) s = bunpin nbuk s b"

fun run :: "nat \<Rightarrow> call list \<Rightarrow> bcache \<Rightarrow> error + bcache" where
  "run nbuk [] s = Inr s"
| "run nbuk (c # cs) s =
     (case do_call nbuk c s of Inl e \<Rightarrow> Inl e | Inr s' \<Rightarrow> run nbuk cs s')"

text \<open>
  A sequence of \<open>bget\<close> calls \<open>(pid, dev, blockno)\<close>, each taken to the point where it
  returns or where its caller goes to sleep on the sleep-lock of the buffer it was given.
\<close>

fun bget_calls :: "nat \<Rightarrow> (nat \<times> uint \<times> uint) list \<Rightarrow> bcache \<Rightarrow> error + bcache" where
  "bget_calls nbuk [] s = Inr s"
| "bget_calls nbuk ((pid, d, n) # cs) s =
     (case bget_pick nbuk s d n of
        Inl e \<Rightarrow> Inl e
      | Inr (b, s1) \<Rightarrow>
          bget_calls nbuk cs (case acquiresleep pid b s1 of None \<Rightarrow> s1 | Some s2 \<Rightarrow> s2))"

subsection \<open>Reading the bucket lists off the memory\<close>

text \<open>
  The buffers reached from a pointer through \<open>next\<close>, up to the null pointer; \<open>None\<close> when
  more than \<open>fuel\<close> buffers are reached, as on a cyclic chain.
\<close>

fun chain_from :: "nat \<Rightarrow> (nat \<Rightarrow> buf) \<Rightarrow> nat option \<Rightarrow> nat list option" where
  "chain_from fuel bs None = Some []"
| "chain_from 0 bs (Some a) = None"
| "chain_from (Suc fuel) bs (Some a) = map_option ((#) a) (chain_from fuel bs (nxt (bs a)))"

definition bucket_list :: "nat \<Rightarrow> bcache \<Rightarrow> nat \<Rightarrow> nat list option" where
  "bucket_list nbuf s i = chain_from nbuf (bufs s) (heads s i)"

section \<open>Notions used in the statements and proofs\<close>

text \<open>
  The chain that starts at pointer \<open>p\<close> visits exactly the buffers
  \<open>xs\<close>, in this order, and ends at the null pointer.
\<close>

primrec is_chain :: "(nat \<Rightarrow> buf) \<Rightarrow> nat option \<Rightarrow> nat list \<Rightarrow> bool" where
  "is_chain bs p [] \<longleftrightarrow> p = None"
| "is_chain bs p (a # as) \<longleftrightarrow> p = Some a \<and> is_chain bs (nxt (bs a)) as"

text \<open>
  The pairs \<open>(prev_b, prev_b->next)\<close> that the inner loop of the scan goes through
  on a chain \<open>xs\<close> entered at \<open>p\<close>.
\<close>

definition links :: "bptr \<Rightarrow> nat list \<Rightarrow> (bptr \<times> nat) list" where
  "links p xs = zip (p # map BufAt xs) xs"

text \<open>One iteration of the inner loop of the scan, on such a pair.\<close>

fun cand_step :: "(nat \<Rightarrow> buf) \<Rightarrow> bptr \<times> nat \<Rightarrow> scan_vars \<Rightarrow> scan_vars" where
  "cand_step bs (p, a) v =
     (if refcnt (bs a) = 0 \<and> max_timestamp v \<le> timestamp (bs a)
      then v\<lparr>max_timestamp := timestamp (bs a), is_better := True, prev_lru_b := Some p\<rparr>
      else v)"

text \<open>A buffer that the scan may take: its \<open>refcnt\<close> is zero.\<close>

definition free :: "(nat \<Rightarrow> buf) \<Rightarrow> nat \<Rightarrow> bool" where
  "free bs a \<longleftrightarrow> refcnt (bs a) = 0"

text \<open>
  The pointer in front of the buffer that follows the prefix \<open>ys\<close> of a chain
  entered at \<open>p\<close>.
\<close>

definition prev_ptr :: "bptr \<Rightarrow> nat list \<Rightarrow> bptr" where
  "prev_ptr p ys = (if ys = [] then p else BufAt (last ys))"

text \<open>
  After the first \<open>j\<close> buckets: \<open>a\<close>, on the chain of bucket
  \<open>k\<close> between \<open>ys\<close> and \<open>zs\<close>, is free; no free buffer
  seen has a larger stamp, and every free buffer seen after \<open>a\<close> has a smaller
  one.
\<close>

definition chosen :: "(nat \<Rightarrow> buf) \<Rightarrow> nat list list \<Rightarrow> nat \<Rightarrow> nat \<Rightarrow> nat list \<Rightarrow> nat \<Rightarrow> nat list \<Rightarrow> bool" where
  "chosen bs xss j k ys a zs \<longleftrightarrow>
     k < j \<and> xss ! k = ys @ a # zs \<and> free bs a \<and>
     (\<forall>i<j. \<forall>b\<in>set (xss ! i). free bs b \<longrightarrow> timestamp (bs b) \<le> timestamp (bs a)) \<and>
     (\<forall>b\<in>set zs. free bs b \<longrightarrow> timestamp (bs b) < timestamp (bs a)) \<and>
     (\<forall>i. k < i \<and> i < j \<longrightarrow> (\<forall>b\<in>set (xss ! i). free bs b \<longrightarrow> timestamp (bs b) < timestamp (bs a)))"

text \<open>
  The invariant of the outer loop of the scan after \<open>j\<close> buckets: nothing free was
  seen and the locals are as initialized, or the locals describe the chosen buffer.
\<close>

definition scan_inv :: "(nat \<Rightarrow> buf) \<Rightarrow> nat list list \<Rightarrow> nat \<Rightarrow> scan_vars \<Rightarrow> bool" where
  "scan_inv bs xss j v \<longleftrightarrow>
     \<not> is_better v \<and>
     (prev_lru_b v = None \<and> lru_buk_id v = - 1 \<and> max_timestamp v = 0 \<and>
        (\<forall>i<j. \<forall>b\<in>set (xss ! i). \<not> free bs b)
      \<or> (\<exists>k ys a zs. chosen bs xss j k ys a zs \<and> lru_buk_id v = int k \<and>
            max_timestamp v = timestamp (bs a) \<and>
            prev_lru_b v = Some (prev_ptr (HeadOf k) ys)))"

text \<open>
  The spinlocks held between two iterations of the outer loop: the bucket lock named by
  \<open>lru_buk_id\<close>, and \<open>bcache.lock\<close> as it was.
\<close>

definition scan_locks :: "bcache \<Rightarrow> scan_vars \<Rightarrow> spinlock \<Rightarrow> bool" where
  "scan_locks s v l = (case l of BcacheLock \<Rightarrow> spin s BcacheLock | BucketLock i \<Rightarrow> lru_buk_id v = int i)"

text \<open>The lists \<open>xss\<close> are the chains of the buckets.\<close>

definition linked :: "bcache \<Rightarrow> nat list list \<Rightarrow> bool" where
  "linked s xss \<longleftrightarrow> (\<forall>i<length xss. is_chain (bufs s) (heads s i) (xss ! i))"

text \<open>Every buffer of the pool is on exactly one of the lists, once.\<close>

definition partition_of :: "nat \<Rightarrow> nat list list \<Rightarrow> bool" where
  "partition_of nbuf xss \<longleftrightarrow> distinct (concat xss) \<and> set (concat xss) = {..<nbuf}"

text \<open>The test of lines 96 and 167.\<close>

definition matches :: "(nat \<Rightarrow> buf) \<Rightarrow> uint \<Rightarrow> uint \<Rightarrow> nat \<Rightarrow> bool" where
  "matches bs d n a \<longleftrightarrow> dev (bs a) = d \<and> blockno (bs a) = n"

text \<open>
  What lines 164-186 make of the state \<open>sm\<close> in which the victim \<open>a\<close>
  is linked in front of the chain \<open>xs\<close>.
\<close>

definition installed :: "bcache \<Rightarrow> nat \<Rightarrow> nat list \<Rightarrow> uint \<Rightarrow> uint \<Rightarrow> nat \<Rightarrow> bcache \<Rightarrow> bool" where
  "installed sm a xs d n b s' \<longleftrightarrow>
     spin s' = spin sm \<and> heads s' = heads sm \<and> disk s' = disk sm \<and> io_log s' = io_log sm \<and>
     (case find (matches (bufs sm) d n) (a # xs) of
        Some b' \<Rightarrow> b = b' \<and>
          bufs s' = (bufs sm)(b := (bufs sm b)\<lparr>refcnt := refcnt (bufs sm b) + 1\<rparr>)
      | None \<Rightarrow> b = a \<and>
          bufs s' = (bufs sm)(a := (bufs sm a)\<lparr>dev := d, blockno := n, valid := False, refcnt := 1\<rparr>))"

text \<open>No spinlock is held.\<close>

definition quiescent :: "bcache \<Rightarrow> bool" where
  "quiescent s \<longleftrightarrow> (\<forall>l. \<not> spin s l)"

text \<open>
  The memory after the victim \<open>a\<close> is unlinked from bucket \<open>k\<close> and
  linked at the head of bucket \<open>h\<close>.
\<close>

definition migrate :: "nat \<Rightarrow> nat list \<Rightarrow> nat \<Rightarrow> nat \<Rightarrow> bcache \<Rightarrow> bcache" where
  "migrate k ys a h s = relink h a (set_next (prev_ptr (HeadOf k) ys) (nxt (bufs s a)) s)"

text \<open>The same move on the lists.\<close>

definition moved :: "nat list list \<Rightarrow> nat \<Rightarrow> nat list \<Rightarrow> nat \<Rightarrow> nat list \<Rightarrow> nat \<Rightarrow> nat list list" where
  "moved xss k ys a zs h = (xss[k := ys @ zs])[h := a # (xss[k := ys @ zs]) ! h]"

text \<open>The invariant of the cache between calls.\<close>

definition cache_inv :: "nat \<Rightarrow> nat \<Rightarrow> bcache \<Rightarrow> bool" where
  "cache_inv nbuf nbuk s \<longleftrightarrow>
     quiescent s \<and> (\<exists>xss. length xss = nbuk \<and> linked s xss \<and> partition_of nbuf xss)"

text \<open>One iteration of the inner loop of \<open>binit\<close>.\<close>

definition binit_buf :: "nat \<Rightarrow> nat \<Rightarrow> uint \<Rightarrow> bptr \<Rightarrow> bcache \<Rightarrow> bcache" where
  "binit_buf b nbuf ticks prev_b s =
     initsleeplock b (upd_buf b (\<lambda>x. x\<lparr>timestamp := ticks\<rparr>)
       (set_next prev_b (Some b) (if Suc b = nbuf then set_next (BufAt b) None s else s)))"

text \<open>\<open>binit\<close> up to the end of the iteration for bucket 0.\<close>

definition binit_first :: "nat \<Rightarrow> uint \<Rightarrow> bcache \<Rightarrow> bcache" where
  "binit_first nbuf ticks s =
     binit_bufs [0..<nbuf] nbuf ticks (HeadOf 0)
       (set_next (HeadOf 0) None (initlock (BucketLock 0) (initlock BcacheLock s)))"

text \<open>The lists after \<open>binit\<close>: every buffer on the chain of bucket 0.\<close>

definition boot_lists :: "nat \<Rightarrow> nat \<Rightarrow> nat list list" where
  "boot_lists nbuf nbuk = [0..<nbuf] # replicate (nbuk - 1) []"

text \<open>Two buffers hold the same \<open>(dev, blockno)\<close>.\<close>

definition same_block :: "(nat \<Rightarrow> buf) \<Rightarrow> nat \<Rightarrow> nat \<Rightarrow> bool" where
  "same_block bs a b \<longleftrightarrow> dev (bs a) = dev (bs b) \<and> blockno (bs a) = blockno (bs b)"

text \<open>
  On a chain, no referenced buffer comes after a buffer of the same block: a walk that looks
  for the block of a referenced buffer stops at that buffer.
\<close>

primrec first_hit :: "(nat \<Rightarrow> buf) \<Rightarrow> nat list \<Rightarrow> bool" where
  "first_hit bs [] \<longleftrightarrow> True"
| "first_hit bs (a # as) \<longleftrightarrow>
     (\<forall>b\<in>set as. refcnt (bs b) \<noteq> 0 \<longrightarrow> \<not> same_block bs b a) \<and> first_hit bs as"

text \<open>Every buffer is on the chain of the bucket its identity hashes to.\<close>

definition placed :: "nat \<Rightarrow> (nat \<Rightarrow> buf) \<Rightarrow> nat list list \<Rightarrow> bool" where
  "placed nbuk bs xss \<longleftrightarrow>
     (\<forall>i<length xss. \<forall>a\<in>set (xss ! i). hash nbuk (dev (bs a)) (blockno (bs a)) = i)"

text \<open>The invariant behind identity uniqueness.\<close>

definition uniq_inv :: "nat \<Rightarrow> nat \<Rightarrow> bcache \<Rightarrow> bool" where
  "uniq_inv nbuf nbuk s \<longleftrightarrow>
     quiescent s \<and>
     (\<exists>xss. length xss = nbuk \<and> linked s xss \<and> partition_of nbuf xss \<and>
            placed nbuk (bufs s) xss \<and> (\<forall>i<nbuk. first_hit (bufs s) (xss ! i)))"

text \<open>Two memories give a buffer the same identity and count.\<close>

definition agree :: "(nat \<Rightarrow> buf) \<Rightarrow> (nat \<Rightarrow> buf) \<Rightarrow> nat \<Rightarrow> bool" where
  "agree bs' bs a \<longleftrightarrow>
     dev (bs' a) = dev (bs a) \<and> blockno (bs' a) = blockno (bs a) \<and> refcnt (bs' a) = refcnt (bs a)"

text \<open>
  A cache of three buffers and two buckets after \<open>bget(1, 1)\<close> and the
  \<open>brelse\<close> of its buffer at tick 5.
\<close>

definition released_state :: bcache where
  "released_state =
     (case run 2 [Bget 7 1 1, Brelse 7 5 2] (boot 3 2 0 (\<lambda>_ _. [])) of
        Inr s \<Rightarrow> s
      | Inl _ \<Rightarrow> boot 3 2 0 (\<lambda>_ _. []))"

text \<open>
  A cache of three buffers and two buckets in which one caller holds the buffer of block
  \<open>(1, 1)\<close> while a second caller of \<open>bget(1, 1)\<close>, whose fast path
  ran before the block was cached, has scanned the buckets and unlinked its victim.
\<close>

definition raced_state :: bcache where
  "raced_state =
     (case bget 2 7 (boot 3 2 0 (\<lambda>_ _. [])) 1 1 of
        Inl _ \<Rightarrow> boot 3 2 0 (\<lambda>_ _. [])
      | Inr (b, sa) \<Rightarrow>
          (case scan_buckets [0..<2] sa scan_init of
             Inl _ \<Rightarrow> sa
           | Inr (s1, v) \<Rightarrow>
               (case bget_steal s1 v of Inl _ \<Rightarrow> s1 | Inr (s2, lru_b) \<Rightarrow> s2)))"

text \<open>
  A second caller of \<open>bget(1, 1)\<close> whose fast path missed on the fresh cache, resumed after
  another caller has read block \<open>(1, 1)\<close> into buffer 2 and released it at tick 5: the scan
  and lines 146-152 of the second caller, which take buffer 2 for a victim.
\<close>

definition refound_steal :: "error + (bcache \<times> nat option)" where
  "refound_steal =
     (case run 2 [Bread 8 1 1, Brelse 8 5 2] (boot 3 2 0 (\<lambda>_ _. [])) of
        Inl e \<Rightarrow> Inl e
      | Inr s \<Rightarrow>
          (case scan_buckets [0..<2] s scan_init of
             Inl e \<Rightarrow> Inl e
           | Inr (s1, v) \<Rightarrow> bget_steal s1 v))"

text \<open>The memory after that.\<close>

definition refound_state :: bcache where
  "refound_state =
     (case refound_steal of Inl _ \<Rightarrow> boot 3 2 0 (\<lambda>_ _. []) | Inr (s2, lru_b) \<Rightarrow> s2)"

text \<open>
  Calls of \<open>bget\<close> on a cache of three buffers and two buckets, interleaved where \<open>bget\<close>
  holds no spinlock (between lines 151 and 154). Process 10 reads block \<open>(1, 3)\<close> and
  releases it at tick 5. Process 12 calls \<open>bget(1, 1)\<close> and runs lines 90-152. Process 14
  calls \<open>bget(1, 3)\<close> and process 11 calls \<open>bget(1, 1)\<close>, both to the end. Process 12
  goes on with lines 154-186. Process 15 calls \<open>bget(1, 3)\<close>. The result holds what the
  fast path of process 12 found, its victim, the buffers given to processes 14, 11, 12 and
  15, and the memory at the end.
\<close>

definition interleaved_trace ::
  "error + (nat option \<times> nat option \<times> nat \<times> nat \<times> nat \<times> nat \<times> bcache)" where
  "interleaved_trace =
     (case run 2 [Bread 10 1 3, Brelse 10 5 2] (boot 3 2 0 (\<lambda>_ _. [])) of
        Inl e \<Rightarrow> Inl e | Inr s1 \<Rightarrow>
     (case bget_fast 2 s1 1 1 of Inl e \<Rightarrow> Inl e | Inr (hit2, s2) \<Rightarrow>
     (case scan_buckets [0..<2] s2 scan_init of Inl e \<Rightarrow> Inl e | Inr (s3, v2) \<Rightarrow>
     (case bget_steal s3 v2 of Inl e \<Rightarrow> Inl e | Inr (s4, lru_b2) \<Rightarrow>
     (case bget 2 14 s4 1 3 of Inl e \<Rightarrow> Inl e | Inr (b4, s5) \<Rightarrow>
     (case bget 2 11 s5 1 1 of Inl e \<Rightarrow> Inl e | Inr (b1, s6) \<Rightarrow>
     (case bget_install (hash 2 1 1) s6 lru_b2 1 1 of Inl e \<Rightarrow> Inl e | Inr (b2, s7) \<Rightarrow>
     (case bget 2 15 s7 1 3 of Inl e \<Rightarrow> Inl e | Inr (b5, s8) \<Rightarrow>
        Inr (hit2, lru_b2, b4, b1, b2, b5, s8)))))))))"

section \<open>Verification\<close>

subsection \<open>Field access\<close>

lemma upd_buf_sel [simp]:
  "bufs (upd_buf b f s) = (bufs s)(b := f (bufs s b))"
  "heads (upd_buf b f s) = heads s"
  "spin (upd_buf b f s) = spin s"
  "disk (upd_buf b f s) = disk s"
  "io_log (upd_buf b f s) = io_log s"
  by (simp_all add: upd_buf_def)

lemma release_sel [simp]:
  "bufs (release l s) = bufs s"
  "heads (release l s) = heads s"
  "spin (release l s) = (spin s)(l := False)"
  "disk (release l s) = disk s"
  "io_log (release l s) = io_log s"
  by (simp_all add: release_def)

lemma initlock_sel [simp]:
  "bufs (initlock l s) = bufs s"
  "heads (initlock l s) = heads s"
  "spin (initlock l s) = (spin s)(l := False)"
  "disk (initlock l s) = disk s"
  "io_log (initlock l s) = io_log s"
  by (simp_all add: initlock_def)

lemma acquire_Inr:
  "acquire l s = Inr s' \<longleftrightarrow> \<not> spin s l \<and> s' = s\<lparr>spin := (spin s)(l := True)\<rparr>"
  by (auto simp: acquire_def)

lemma acquire_free: "\<not> spin s l \<Longrightarrow> acquire l s = Inr (s\<lparr>spin := (spin s)(l := True)\<rparr>)"
  by (simp add: acquire_def)

lemma set_next_sel [simp]:
  "spin (set_next p v s) = spin s"
  "disk (set_next p v s) = disk s"
  "io_log (set_next p v s) = io_log s"
  by (cases p; simp)+

lemma is_chain_unique: "is_chain bs p xs \<Longrightarrow> is_chain bs p ys \<Longrightarrow> xs = ys"
proof (induction xs arbitrary: p ys)
  case Nil
  then show ?case by (cases ys) auto
next
  case (Cons a xs)
  then show ?case by (cases ys) auto
qed

lemma is_chain_append:
  "is_chain bs p (xs @ ys) \<Longrightarrow> \<exists>q. is_chain bs q ys"
  by (induction xs arbitrary: p) auto

lemma is_chain_not_later: "is_chain bs (nxt (bs a)) xs \<Longrightarrow> a \<notin> set xs"
proof
  assume c: "is_chain bs (nxt (bs a)) xs" and "a \<in> set xs"
  then obtain ys zs where xs: "xs = ys @ a # zs"
    by (auto simp: in_set_conv_decomp)
  have "\<And>p. is_chain bs p (ys @ a # zs) \<Longrightarrow> is_chain bs (nxt (bs a)) zs"
    by (induction ys) auto
  with c xs have "is_chain bs (nxt (bs a)) zs" by blast
  with c xs have "ys @ a # zs = zs" by (auto dest: is_chain_unique)
  then have "length (ys @ a # zs) = length zs" by simp
  then show False by simp
qed

lemma is_chain_distinct: "is_chain bs p xs \<Longrightarrow> distinct xs"
  by (induction xs arbitrary: p) (auto dest: is_chain_not_later)

lemma is_chain_cong:
  "(\<And>a. a \<in> set xs \<Longrightarrow> nxt (bs' a) = nxt (bs a)) \<Longrightarrow> is_chain bs' p xs = is_chain bs p xs"
  by (induction xs arbitrary: p) auto

lemma find_blk_chain:
  "is_chain (bufs s) p xs \<Longrightarrow>
   find_blk s p d n = Some (find (\<lambda>a. dev (bufs s a) = d \<and> blockno (bufs s a) = n) xs)"
proof (induction xs arbitrary: p)
  case Nil
  then show ?case by (simp add: find_blk.simps)
next
  case (Cons a xs)
  then show ?case by (subst find_blk.simps) simp
qed

lemma links_simps [simp]:
  "links p [] = []"
  "links p (a # as) = (p, a) # links (BufAt a) as"
  by (simp_all add: links_def)

lemma scan_chain_fold:
  "is_chain (bufs s) (next_of s p) xs \<Longrightarrow>
   scan_chain s p v = Some (fold (cand_step (bufs s)) (links p xs) v)"
proof (induction xs arbitrary: p v)
  case Nil
  then show ?case by (simp add: scan_chain.simps)
next
  case (Cons a xs)
  then show ?case by (subst scan_chain.simps) simp
qed

subsection \<open>The eviction scan\<close>

lemma fold_cand_step:
  "(\<forall>a\<in>set xs. free bs a \<longrightarrow> timestamp (bs a) < max_timestamp v) \<and>
     fold (cand_step bs) (links p xs) v = v
   \<or> (\<exists>ys a zs. xs = ys @ a # zs \<and> free bs a \<and> max_timestamp v \<le> timestamp (bs a) \<and>
        (\<forall>b\<in>set ys. free bs b \<longrightarrow> timestamp (bs b) \<le> timestamp (bs a)) \<and>
        (\<forall>b\<in>set zs. free bs b \<longrightarrow> timestamp (bs b) < timestamp (bs a)) \<and>
        fold (cand_step bs) (links p xs) v =
          v\<lparr>max_timestamp := timestamp (bs a), is_better := True,
            prev_lru_b := Some (prev_ptr p ys)\<rparr>)"
proof (induction xs arbitrary: p v)
  case Nil
  show ?case by simp
next
  case (Cons x xs)
  let ?q = "free bs x \<and> max_timestamp v \<le> timestamp (bs x)"
  show ?case
  proof (cases ?q)
    case True
    let ?v = "v\<lparr>max_timestamp := timestamp (bs x), is_better := True, prev_lru_b := Some p\<rparr>"
    have st: "fold (cand_step bs) (links p (x # xs)) v = fold (cand_step bs) (links (BufAt x) xs) ?v"
      using True by (simp add: free_def)
    from Cons.IH [where p = "BufAt x" and v = ?v] show ?thesis
    proof (elim disjE conjE exE)
      assume a: "\<forall>a\<in>set xs. free bs a \<longrightarrow> timestamp (bs a) < max_timestamp ?v"
        and f: "fold (cand_step bs) (links (BufAt x) xs) ?v = ?v"
      have "x # xs = [] @ x # xs" by simp
      moreover have "fold (cand_step bs) (links p (x # xs)) v =
          v\<lparr>max_timestamp := timestamp (bs x), is_better := True,
            prev_lru_b := Some (prev_ptr p [])\<rparr>"
        using st f by (simp add: prev_ptr_def)
      ultimately show ?thesis using True a
        by (intro disjI2 exI [of _ "[]"] exI [of _ x] exI [of _ xs]) simp
    next
      fix ys a zs
      assume xs: "xs = ys @ a # zs" and fa: "free bs a"
        and le: "max_timestamp ?v \<le> timestamp (bs a)"
        and ys: "\<forall>b\<in>set ys. free bs b \<longrightarrow> timestamp (bs b) \<le> timestamp (bs a)"
        and zs: "\<forall>b\<in>set zs. free bs b \<longrightarrow> timestamp (bs b) < timestamp (bs a)"
        and f: "fold (cand_step bs) (links (BufAt x) xs) ?v =
                ?v\<lparr>max_timestamp := timestamp (bs a), is_better := True,
                    prev_lru_b := Some (prev_ptr (BufAt x) ys)\<rparr>"
      have "x # xs = (x # ys) @ a # zs" using xs by simp
      moreover have "prev_ptr (BufAt x) ys = prev_ptr p (x # ys)"
        by (simp add: prev_ptr_def)
      moreover have "max_timestamp v \<le> timestamp (bs a)"
        using True le by (auto elim: order_trans)
      moreover have "free bs x \<longrightarrow> timestamp (bs x) \<le> timestamp (bs a)"
        using le by simp
      ultimately show ?thesis using st f fa ys zs le
        by (intro disjI2 exI [of _ "x # ys"] exI [of _ a] exI [of _ zs]) simp
    qed
  next
    case False
    have st: "fold (cand_step bs) (links p (x # xs)) v = fold (cand_step bs) (links (BufAt x) xs) v"
      using False by (auto simp add: free_def)
    have xlt: "free bs x \<longrightarrow> timestamp (bs x) < max_timestamp v"
      using False by auto
    from Cons.IH [where p = "BufAt x" and v = v] show ?thesis
    proof (elim disjE conjE exE)
      assume a: "\<forall>a\<in>set xs. free bs a \<longrightarrow> timestamp (bs a) < max_timestamp v"
        and f: "fold (cand_step bs) (links (BufAt x) xs) v = v"
      show ?thesis using a f st xlt by simp
    next
      fix ys a zs
      assume xs: "xs = ys @ a # zs" and fa: "free bs a"
        and le: "max_timestamp v \<le> timestamp (bs a)"
        and ys: "\<forall>b\<in>set ys. free bs b \<longrightarrow> timestamp (bs b) \<le> timestamp (bs a)"
        and zs: "\<forall>b\<in>set zs. free bs b \<longrightarrow> timestamp (bs b) < timestamp (bs a)"
        and f: "fold (cand_step bs) (links (BufAt x) xs) v =
                v\<lparr>max_timestamp := timestamp (bs a), is_better := True,
                    prev_lru_b := Some (prev_ptr (BufAt x) ys)\<rparr>"
      have "x # xs = (x # ys) @ a # zs" using xs by simp
      moreover have "prev_ptr (BufAt x) ys = prev_ptr p (x # ys)"
        by (simp add: prev_ptr_def)
      moreover have "free bs x \<longrightarrow> timestamp (bs x) \<le> timestamp (bs a)"
        using xlt le by auto
      ultimately show ?thesis using st f fa ys zs le
        by (intro disjI2 exI [of _ "x # ys"] exI [of _ a] exI [of _ zs]) simp
    qed
  qed
qed

lemma scan_locks_cong:
  "spin s' BcacheLock = spin s BcacheLock \<Longrightarrow> scan_locks s' v = scan_locks s v"
  by (auto simp: scan_locks_def fun_eq_iff split: spinlock.splits)

lemma not_better_upd: "\<not> is_better v \<Longrightarrow> v\<lparr>is_better := False\<rparr> = v"
  by simp

lemma scan_inv_keep:
  assumes inv: "scan_inv bs xss j v"
    and lt: "\<forall>a\<in>set (xss ! j). free bs a \<longrightarrow> timestamp (bs a) < max_timestamp v"
  shows "scan_inv bs xss (Suc j) v"
proof -
  from inv have nb: "\<not> is_better v" by (simp add: scan_inv_def)
  from inv consider
    (none) "prev_lru_b v = None" "lru_buk_id v = - 1" "max_timestamp v = 0"
           "\<forall>i<j. \<forall>b\<in>set (xss ! i). \<not> free bs b"
  | (some) k ys a zs where "chosen bs xss j k ys a zs" "lru_buk_id v = int k"
           "max_timestamp v = timestamp (bs a)" "prev_lru_b v = Some (prev_ptr (HeadOf k) ys)"
    by (auto simp: scan_inv_def)
  then show ?thesis
  proof cases
    case none
    from lt none(3) have "\<forall>b\<in>set (xss ! j). \<not> free bs b" by auto
    with none(4) have "\<forall>i<Suc j. \<forall>b\<in>set (xss ! i). \<not> free bs b"
      by (auto simp: less_Suc_eq)
    with none nb show ?thesis by (simp add: scan_inv_def)
  next
    case some
    from some(1) lt some(3) have "chosen bs xss (Suc j) k ys a zs"
      by (auto simp: chosen_def less_Suc_eq)
    with some nb show ?thesis by (auto simp: scan_inv_def)
  qed
qed

lemma scan_inv_replace:
  assumes inv: "scan_inv bs xss j v"
    and xs: "xss ! j = ys @ a # zs" and fa: "free bs a"
    and le: "max_timestamp v \<le> timestamp (bs a)"
    and ys: "\<forall>b\<in>set ys. free bs b \<longrightarrow> timestamp (bs b) \<le> timestamp (bs a)"
    and zs: "\<forall>b\<in>set zs. free bs b \<longrightarrow> timestamp (bs b) < timestamp (bs a)"
  shows "scan_inv bs xss (Suc j)
           (v\<lparr>max_timestamp := timestamp (bs a), is_better := True,
              prev_lru_b := Some (prev_ptr (HeadOf j) ys),
              lru_buk_id := int j, is_better := False\<rparr>)"
proof -
  have old: "\<forall>i<j. \<forall>b\<in>set (xss ! i). free bs b \<longrightarrow> timestamp (bs b) \<le> timestamp (bs a)"
  proof (intro allI impI ballI)
    fix i b
    assume i: "i < j" and b: "b \<in> set (xss ! i)" and fb: "free bs b"
    from inv i b fb have "timestamp (bs b) \<le> max_timestamp v"
      by (auto simp: scan_inv_def chosen_def)
    then show "timestamp (bs b) \<le> timestamp (bs a)" using le by (rule order_trans)
  qed
  have here: "\<forall>b\<in>set (xss ! j). free bs b \<longrightarrow> timestamp (bs b) \<le> timestamp (bs a)"
    using xs ys zs by auto
  have "\<forall>i<Suc j. \<forall>b\<in>set (xss ! i). free bs b \<longrightarrow> timestamp (bs b) \<le> timestamp (bs a)"
    using old here by (auto simp: less_Suc_eq)
  then have "chosen bs xss (Suc j) j ys a zs"
    using xs fa zs by (auto simp add: chosen_def)
  then show ?thesis
    unfolding scan_inv_def by (intro conjI disjI2 exI [of _ j] exI [of _ ys] exI [of _ a] exI [of _ zs]) simp_all
qed

lemma scan_buckets_inv:
  assumes chains: "\<forall>i<nbuk. is_chain (bufs s) (heads s i) (xss ! i)"
    and j: "j \<le> nbuk"
    and inv: "scan_inv (bufs s) xss j v"
    and locks: "\<forall>i. spin s (BucketLock i) \<longleftrightarrow> lru_buk_id v = int i"
  shows "\<exists>v'. scan_buckets [j..<nbuk] s v = Inr (s\<lparr>spin := scan_locks s v'\<rparr>, v') \<and>
              scan_inv (bufs s) xss nbuk v'"
  using assms
proof (induction "nbuk - j" arbitrary: j s v)
  case 0
  then have "j = nbuk" by simp
  moreover have "s\<lparr>spin := scan_locks s v\<rparr> = s"
  proof -
    have "scan_locks s v = spin s"
      using "0.prems"(4) by (auto simp: scan_locks_def fun_eq_iff split: spinlock.splits)
    then show ?thesis by simp
  qed
  ultimately show ?case using "0.prems"(3) by simp
next
  case (Suc m)
  then have jl: "j < nbuk" by simp
  then have upt: "[j..<nbuk] = j # [Suc j..<nbuk]" by (simp add: upt_conv_Cons)
  have idle: "\<not> spin s (BucketLock j)"
    using Suc.prems(3,4) by (auto simp: scan_inv_def chosen_def)
  let ?s1 = "s\<lparr>spin := (spin s)(BucketLock j := True)\<rparr>"
  have acq: "acquire (BucketLock j) s = Inr ?s1"
    using idle by (simp add: acquire_free)
  have ch: "is_chain (bufs ?s1) (next_of ?s1 (HeadOf j)) (xss ! j)"
    using Suc.prems(1) jl by simp
  have sc: "scan_chain ?s1 (HeadOf j) v = Some (fold (cand_step (bufs s)) (links (HeadOf j) (xss ! j)) v)"
    using scan_chain_fold [OF ch] by simp
  have nb: "\<not> is_better v" using Suc.prems(3) by (simp add: scan_inv_def)
  from fold_cand_step [of "xss ! j" "bufs s" v "HeadOf j"] show ?case
  proof (elim disjE conjE exE)
    assume lt: "\<forall>a\<in>set (xss ! j). free (bufs s) a \<longrightarrow> timestamp (bufs s a) < max_timestamp v"
      and f: "fold (cand_step (bufs s)) (links (HeadOf j) (xss ! j)) v = v"
    let ?s2 = "release (BucketLock j) ?s1"
    have step: "scan_buckets [j..<nbuk] s v = scan_buckets [Suc j..<nbuk] ?s2 v"
      using acq sc f nb by (simp add: upt not_better_upd)
    have i2: "scan_inv (bufs ?s2) xss (Suc j) v"
      using scan_inv_keep [OF Suc.prems(3) lt] by simp
    have l2: "\<forall>i. spin ?s2 (BucketLock i) \<longleftrightarrow> lru_buk_id v = int i"
      using Suc.prems(4) idle by auto
    have c2: "\<forall>i<nbuk. is_chain (bufs ?s2) (heads ?s2 i) (xss ! i)"
      using Suc.prems(1) by simp
    have m2: "m = nbuk - Suc j" using Suc.hyps(2) by simp
    from Suc.hyps(1) [OF m2 c2 _ i2 l2] jl
    obtain v' where r: "scan_buckets [Suc j..<nbuk] ?s2 v = Inr (?s2\<lparr>spin := scan_locks ?s2 v'\<rparr>, v')"
      and i': "scan_inv (bufs ?s2) xss nbuk v'"
      by auto
    have "scan_locks ?s2 v' = scan_locks s v'"
      by (rule scan_locks_cong) simp
    then have "?s2\<lparr>spin := scan_locks ?s2 v'\<rparr> = s\<lparr>spin := scan_locks s v'\<rparr>"
      by (simp add: release_def)
    with r i' step show ?thesis by auto
  next
    fix ys a zs
    assume xs: "xss ! j = ys @ a # zs" and fa: "free (bufs s) a"
      and le: "max_timestamp v \<le> timestamp (bufs s a)"
      and ys: "\<forall>b\<in>set ys. free (bufs s) b \<longrightarrow> timestamp (bufs s b) \<le> timestamp (bufs s a)"
      and zs: "\<forall>b\<in>set zs. free (bufs s) b \<longrightarrow> timestamp (bufs s b) < timestamp (bufs s a)"
      and f: "fold (cand_step (bufs s)) (links (HeadOf j) (xss ! j)) v =
                v\<lparr>max_timestamp := timestamp (bufs s a), is_better := True,
                    prev_lru_b := Some (prev_ptr (HeadOf j) ys)\<rparr>"
    let ?v1 = "v\<lparr>max_timestamp := timestamp (bufs s a), is_better := True,
                    prev_lru_b := Some (prev_ptr (HeadOf j) ys)\<rparr>"
    let ?v2 = "?v1\<lparr>lru_buk_id := int j, is_better := False\<rparr>"
    let ?s2 = "if lru_buk_id v \<noteq> - 1 then release (BucketLock (nat (lru_buk_id v))) ?s1 else ?s1"
    have step: "scan_buckets [j..<nbuk] s v = scan_buckets [Suc j..<nbuk] ?s2 ?v2"
      using acq sc f by (simp add: upt)
    have i2: "scan_inv (bufs ?s2) xss (Suc j) ?v2"
      using scan_inv_replace [OF Suc.prems(3) xs fa le ys zs] by simp
    have old: "lru_buk_id v = - 1 \<or> (\<exists>k<j. lru_buk_id v = int k)"
      using Suc.prems(3) by (auto simp: scan_inv_def chosen_def)
    have l2: "\<forall>i. spin ?s2 (BucketLock i) \<longleftrightarrow> lru_buk_id ?v2 = int i"
      using Suc.prems(4) old by auto
    have c2: "\<forall>i<nbuk. is_chain (bufs ?s2) (heads ?s2 i) (xss ! i)"
      using Suc.prems(1) by simp
    have m2: "m = nbuk - Suc j" using Suc.hyps(2) by simp
    from Suc.hyps(1) [OF m2 c2 _ i2 l2] jl
    obtain v' where r: "scan_buckets [Suc j..<nbuk] ?s2 ?v2 = Inr (?s2\<lparr>spin := scan_locks ?s2 v'\<rparr>, v')"
      and i': "scan_inv (bufs ?s2) xss nbuk v'"
      by auto
    have "scan_locks ?s2 v' = scan_locks s v'"
      by (rule scan_locks_cong) simp
    then have "?s2\<lparr>spin := scan_locks ?s2 v'\<rparr> = s\<lparr>spin := scan_locks s v'\<rparr>"
      by (simp add: release_def)
    moreover have "bufs ?s2 = bufs s" by simp
    ultimately show ?thesis using r i' step by auto
  qed
qed

subsection \<open>Unlinking and relinking a buffer\<close>

lemma chain_after_last:
  "is_chain bs p (ys @ a # zs) \<Longrightarrow> ys \<noteq> [] \<Longrightarrow> nxt (bs (last ys)) = Some a"
proof (induction ys arbitrary: p)
  case Nil
  then show ?case by simp
next
  case (Cons y ys)
  then show ?case by (cases "ys = []") auto
qed

lemma next_of_prev_ptr:
  assumes "is_chain (bufs s) (heads s k) (ys @ a # zs)"
  shows "next_of s (prev_ptr (HeadOf k) ys) = Some a"
proof (cases "ys = []")
  case True
  with assms show ?thesis by (simp add: prev_ptr_def)
next
  case False
  with chain_after_last [OF assms False] show ?thesis by (simp add: prev_ptr_def)
qed

lemma steal_chosen:
  assumes "is_chain (bufs s) (heads s k) (ys @ a # zs)"
    and "prev_lru_b v = Some (prev_ptr (HeadOf k) ys)" and "lru_buk_id v = int k"
  shows "bget_steal s v =
           Inr (release (BucketLock k) (set_next (prev_ptr (HeadOf k) ys) (nxt (bufs s a)) s), Some a)"
  using assms next_of_prev_ptr [OF assms(1)] by (simp add: bget_steal_def)

lemma chain_skip:
  "is_chain bs p (ys @ c # a # zs) \<Longrightarrow>
   is_chain (bs(c := (bs c)\<lparr>nxt := nxt (bs a)\<rparr>)) p (ys @ c # zs)"
proof (induction ys arbitrary: p)
  case Nil
  define bs' where "bs' = bs(c := (bs c)\<lparr>nxt := nxt (bs a)\<rparr>)"
  from Nil have "is_chain bs p ([] @ c # a # zs)" by simp
  then have d: "distinct (c # a # zs)" using is_chain_distinct [of bs p "c # a # zs"] by simp
  from Nil have z: "is_chain bs (nxt (bs a)) zs" and p: "p = Some c" by simp_all
  have "is_chain bs' (nxt (bs a)) zs = is_chain bs (nxt (bs a)) zs"
    using d by (intro is_chain_cong) (auto simp: bs'_def)
  moreover have "nxt (bs' c) = nxt (bs a)" by (simp add: bs'_def)
  ultimately have "is_chain bs' p ([] @ c # zs)" using z p by simp
  then show ?case by (simp only: bs'_def)
next
  case (Cons y ys)
  from Cons.prems have "distinct ((y # ys) @ c # a # zs)" by (rule is_chain_distinct)
  then have "y \<noteq> c" by auto
  with Cons show ?case by simp
qed

lemma unlink_chain:
  assumes "is_chain (bufs s) (heads s k) (ys @ a # zs)"
  shows "is_chain (bufs (set_next (prev_ptr (HeadOf k) ys) (nxt (bufs s a)) s))
           (heads (set_next (prev_ptr (HeadOf k) ys) (nxt (bufs s a)) s) k) (ys @ zs)"
proof (cases ys rule: rev_cases)
  case Nil
  with assms show ?thesis by (simp add: prev_ptr_def)
next
  case (snoc ys' c)
  with assms have "is_chain (bufs s) (heads s k) (ys' @ c # a # zs)" by simp
  from chain_skip [OF this] snoc show ?thesis by (simp add: prev_ptr_def)
qed

lemma concat_nth_split:
  "k < length xss \<Longrightarrow> concat xss = concat (take k xss) @ xss ! k @ concat (drop (Suc k) xss)"
  by (metis concat.simps(2) concat_append id_take_nth_drop)

lemma concat_update_split:
  "k < length xss \<Longrightarrow>
   concat (xss[k := x]) = concat (take k xss) @ x @ concat (drop (Suc k) xss)"
  by (simp add: upd_conv_take_nth_drop)

lemma mset_concat_update:
  "k < length xss \<Longrightarrow> mset (concat (xss[k := x])) + mset (xss ! k) = mset (concat xss) + mset x"
proof -
  assume k: "k < length xss"
  have "mset (concat xss) = mset (concat (take k xss)) + mset (xss ! k) + mset (concat (drop (Suc k) xss))"
    using arg_cong [OF concat_nth_split [OF k], of mset] by simp
  moreover have "mset (concat (xss[k := x])) = mset (concat (take k xss)) + mset x + mset (concat (drop (Suc k) xss))"
    using arg_cong [OF concat_update_split [OF k], of mset] by simp
  ultimately show ?thesis by simp
qed

lemma nth_subset_concat: "i < length xss \<Longrightarrow> set (xss ! i) \<subseteq> set (concat xss)"
proof
  fix x
  assume "i < length xss" and "x \<in> set (xss ! i)"
  then show "x \<in> set (concat xss)"
    using nth_mem [of i xss] by (auto intro!: bexI [of _ "xss ! i"])
qed

lemma distinct_concat_disjoint:
  assumes d: "distinct (concat xss)" and i: "i < length xss" and j: "j < length xss" and ne: "i \<noteq> j"
  shows "set (xss ! i) \<inter> set (xss ! j) = {}"
proof -
  have aux: "set (xss ! i) \<inter> set (xss ! j) = {}" if lt: "i < j" and j: "j < length xss" for i j
  proof -
    from lt j have i: "i < length xss" by simp
    have "j - Suc i < length (drop (Suc i) xss)" using lt j by simp
    moreover have "drop (Suc i) xss ! (j - Suc i) = xss ! j" using lt j by simp
    ultimately have "set (xss ! j) \<subseteq> set (concat (drop (Suc i) xss))"
      using nth_subset_concat [of "j - Suc i" "drop (Suc i) xss"] by simp
    moreover from d concat_nth_split [OF i]
    have "distinct (concat (take i xss) @ xss ! i @ concat (drop (Suc i) xss))" by simp
    ultimately show ?thesis by auto
  qed
  from ne consider "i < j" | "j < i" by linarith
  then show ?thesis using aux [of i j] aux [of j i] i j by cases auto
qed

lemma linked_frame:
  assumes "\<And>a. nxt (bufs s' a) = nxt (bufs s a)" and "heads s' = heads s"
  shows "linked s' xss = linked s xss"
  using assms by (simp add: linked_def is_chain_cong [of _ "bufs s'" "bufs s"])

lemma linked_unlink:
  assumes l: "linked s xss" and d: "distinct (concat xss)" and k: "k < length xss"
    and xs: "xss ! k = ys @ a # zs"
  shows "linked (set_next (prev_ptr (HeadOf k) ys) (nxt (bufs s a)) s) (xss[k := ys @ zs])"
  unfolding linked_def
proof (intro allI impI)
  let ?s = "set_next (prev_ptr (HeadOf k) ys) (nxt (bufs s a)) s"
  fix i
  assume "i < length (xss[k := ys @ zs])"
  then have i: "i < length xss" by simp
  show "is_chain (bufs ?s) (heads ?s i) (xss[k := ys @ zs] ! i)"
  proof (cases "i = k")
    case True
    from l k have "is_chain (bufs s) (heads s k) (xss ! k)" by (simp add: linked_def)
    with xs have "is_chain (bufs s) (heads s k) (ys @ a # zs)" by simp
    from unlink_chain [OF this] True k show ?thesis by simp
  next
    case False
    from l i have c: "is_chain (bufs s) (heads s i) (xss ! i)" by (simp add: linked_def)
    have h: "heads ?s i = heads s i" using False by (simp add: prev_ptr_def)
    have "is_chain (bufs ?s) (heads s i) (xss ! i) = is_chain (bufs s) (heads s i) (xss ! i)"
    proof (rule is_chain_cong)
      fix b
      assume b: "b \<in> set (xss ! i)"
      have "set (xss ! i) \<inter> set (xss ! k) = {}"
        using distinct_concat_disjoint [OF d i k False] .
      with b xs have "b \<notin> set ys" by auto
      then have "ys \<noteq> [] \<longrightarrow> b \<noteq> last ys" by auto
      then show "nxt (bufs ?s b) = nxt (bufs s b)" by (simp add: prev_ptr_def)
    qed
    with c h False show ?thesis by simp
  qed
qed

lemma linked_link:
  assumes l: "linked s xss" and a: "a \<notin> set (concat xss)" and h: "h < length xss"
  shows "linked (relink h a s) (xss[h := a # xss ! h])"
  unfolding linked_def relink_def
proof (intro allI impI)
  let ?s = "set_next (HeadOf h) (Some a) (set_next (BufAt a) (heads s h) s)"
  fix i
  assume "i < length (xss[h := a # xss ! h])"
  then have i: "i < length xss" by simp
  from l i have c: "is_chain (bufs s) (heads s i) (xss ! i)" by (simp add: linked_def)
  have "a \<notin> set (xss ! i)" using a nth_subset_concat [OF i] by auto
  then have same: "is_chain (bufs ?s) p (xss ! i) = is_chain (bufs s) p (xss ! i)" for p
    by (intro is_chain_cong) auto
  show "is_chain (bufs ?s) (heads ?s i) (xss[h := a # xss ! h] ! i)"
  proof (cases "i = h")
    case True
    with c same [of "heads s h"] h show ?thesis by simp
  next
    case False
    with c same [of "heads s i"] show ?thesis by simp
  qed
qed

lemma partition_move:
  assumes p: "partition_of nbuf xss" and k: "k < length xss" and h: "h < length xss"
    and xs: "xss ! k = ys @ a # zs"
  shows "a \<notin> set (concat (xss[k := ys @ zs]))"
    and "partition_of nbuf ((xss[k := ys @ zs])[h := a # (xss[k := ys @ zs]) ! h])"
proof -
  let ?x1 = "xss[k := ys @ zs]"
  let ?x2 = "?x1[h := a # ?x1 ! h]"
  from mset_concat_update [OF k, of "ys @ zs"] xs
  have m1: "mset (concat ?x1) + {#a#} = mset (concat xss)" by simp
  from p have "distinct (concat xss)" by (simp add: partition_of_def)
  then have "count (mset (concat xss)) a \<le> 1" by (simp add: distinct_count_atmost_1)
  with m1 [symmetric] have "count (mset (concat ?x1)) a = 0" by simp
  then show a: "a \<notin> set (concat ?x1)" by (simp add: count_eq_zero_iff)
  have h1: "h < length ?x1" using h by simp
  from mset_concat_update [OF h1, of "a # ?x1 ! h"]
  have "mset (concat ?x2) = mset (concat ?x1) + {#a#}" by simp
  with m1 have m: "mset (concat ?x2) = mset (concat xss)" by simp
  from m have "distinct (concat ?x2) = distinct (concat xss)" by (rule mset_eq_imp_distinct_iff)
  moreover from m have "set (concat ?x2) = set (concat xss)" by (rule mset_eq_setD)
  ultimately show "partition_of nbuf ?x2" using p by (simp add: partition_of_def)
qed

subsection \<open>What bget does to a well-formed cache\<close>

lemma find_blk_matches:
  "is_chain (bufs s) p xs \<Longrightarrow> find_blk s p d n = Some (find (matches (bufs s) d n) xs)"
  using find_blk_chain [of s p xs d n] by (simp add: matches_def [abs_def])

lemma relink_sel [simp]:
  "spin (relink h a s) = spin s"
  "disk (relink h a s) = disk s"
  "io_log (relink h a s) = io_log s"
  "heads (relink h a s) = (heads s)(h := Some a)"
  "bufs (relink h a s) = (bufs s)(a := (bufs s a)\<lparr>nxt := heads s h\<rparr>)"
  by (simp_all add: relink_def)

lemma spin_restore2:
  "\<not> f l1 \<Longrightarrow> \<not> f l2 \<Longrightarrow> (f(l1 := True, l2 := True, l2 := False, l1 := False)) = f"
  by (auto simp: fun_eq_iff)

lemma bget_install_victim:
  assumes b: "\<not> spin s BcacheLock" and l: "\<not> spin s (BucketLock h)"
    and c: "is_chain (bufs s) (heads s h) xs" and a: "a \<notin> set xs"
  shows "\<exists>b s'. bget_install h s (Some a) d n = Inr (b, s') \<and> installed (relink h a s) a xs d n b s'"
proof -
  let ?s1 = "s\<lparr>spin := (spin s)(BcacheLock := True)\<rparr>"
  let ?s2 = "?s1\<lparr>spin := (spin ?s1)(BucketLock h := True)\<rparr>"
  let ?s3 = "relink h a ?s2"
  let ?sm = "relink h a s"
  have a1: "acquire BcacheLock s = Inr ?s1" using b by (simp add: acquire_free)
  have a2: "acquire (BucketLock h) ?s1 = Inr ?s2" using l by (simp add: acquire_free)
  have "is_chain (bufs ?s3) (heads ?s3 h) (a # xs)"
  proof -
    have "is_chain (bufs ?s3) (heads s h) xs = is_chain (bufs s) (heads s h) xs"
      using a by (intro is_chain_cong) auto
    with c show ?thesis by simp
  qed
  then have f: "find_blk ?s3 (heads ?s3 h) d n = Some (find (matches (bufs ?s3) d n) (a # xs))"
    by (rule find_blk_matches)
  have f': "find_blk ?s3 (Some a) d n = Some (find (matches (bufs ?sm) d n) (a # xs))"
    using f by simp
  have r: "bget_install h s (Some a) d n =
      (case find (matches (bufs ?sm) d n) (a # xs) of
         None \<Rightarrow> Inr (a, release BcacheLock (release (BucketLock h)
                   (upd_buf a (\<lambda>x. x\<lparr>dev := d, blockno := n, valid := False, refcnt := 1\<rparr>) ?s3)))
       | Some b \<Rightarrow> Inr (b, release BcacheLock (release (BucketLock h)
                   (upd_buf b (\<lambda>x. x\<lparr>refcnt := refcnt x + 1\<rparr>) ?s3))))"
    unfolding bget_install_def by (simp only: a1 a2 f' sum.case option.case Let_def relink_sel
        fun_upd_same split: option.split)
  have sp: "(spin s)(BcacheLock := True, BucketLock h := True, BucketLock h := False, BcacheLock := False) = spin s"
    using b l by (rule spin_restore2)
  show ?thesis
  proof (cases "find (matches (bufs ?sm) d n) (a # xs)")
    case None
    show ?thesis unfolding r installed_def None using sp by simp
  next
    case (Some b')
    show ?thesis unfolding r installed_def Some using sp by simp
  qed
qed

lemma release_acquired:
  "\<not> spin s l \<Longrightarrow> release l (s\<lparr>spin := (spin s)(l := True)\<rparr>) = s"
  "\<not> spin s l \<Longrightarrow> release l (upd_buf b f (s\<lparr>spin := (spin s)(l := True)\<rparr>)) = upd_buf b f s"
  by (simp_all add: release_def upd_buf_def fun_upd_idem)

lemma bget_fast_result:
  assumes q: "\<not> spin s (BucketLock (hash nbuk d n))"
    and c: "is_chain (bufs s) (heads s (hash nbuk d n)) xs"
  shows "bget_fast nbuk s d n =
           Inr (case find (matches (bufs s) d n) xs of
                  None \<Rightarrow> (None, s)
                | Some b \<Rightarrow> (Some b, upd_buf b (\<lambda>x. x\<lparr>refcnt := refcnt x + 1\<rparr>) s))"
proof -
  let ?h = "hash nbuk d n"
  let ?s1 = "s\<lparr>spin := (spin s)(BucketLock ?h := True)\<rparr>"
  have a1: "acquire (BucketLock ?h) s = Inr ?s1" using q by (simp add: acquire_free)
  have "is_chain (bufs ?s1) (heads s ?h) xs" using c by simp
  then have f: "find_blk ?s1 (heads s ?h) d n = Some (find (matches (bufs s) d n) xs)"
    using find_blk_matches [of ?s1 "heads s ?h" xs d n] by simp
  show ?thesis
    unfolding bget_fast_def Let_def
    by (simp add: a1 f release_acquired [OF q] split: option.split)
qed

lemma migrate_sel [simp]:
  "spin (migrate k ys a h s) = spin s"
  "disk (migrate k ys a h s) = disk s"
  "io_log (migrate k ys a h s) = io_log s"
  by (simp_all add: migrate_def)

lemma set_next_fields [simp]:
  "dev (bufs (set_next p v s) c) = dev (bufs s c)"
  "blockno (bufs (set_next p v s) c) = blockno (bufs s c)"
  "refcnt (bufs (set_next p v s) c) = refcnt (bufs s c)"
  "valid (bufs (set_next p v s) c) = valid (bufs s c)"
  "timestamp (bufs (set_next p v s) c) = timestamp (bufs s c)"
  "slk (bufs (set_next p v s) c) = slk (bufs s c)"
  "data (bufs (set_next p v s) c) = data (bufs s c)"
  by (cases p; simp)+

lemma migrate_fields [simp]:
  "dev (bufs (migrate k ys a h s) c) = dev (bufs s c)"
  "blockno (bufs (migrate k ys a h s) c) = blockno (bufs s c)"
  "refcnt (bufs (migrate k ys a h s) c) = refcnt (bufs s c)"
  "valid (bufs (migrate k ys a h s) c) = valid (bufs s c)"
  "timestamp (bufs (migrate k ys a h s) c) = timestamp (bufs s c)"
  "slk (bufs (migrate k ys a h s) c) = slk (bufs s c)"
  "data (bufs (migrate k ys a h s) c) = data (bufs s c)"
  by (simp_all add: migrate_def relink_def)

lemma migrate_linked:
  assumes l: "linked s xss" and p: "partition_of nbuf xss" and k: "k < length xss"
    and h: "h < length xss" and xs: "xss ! k = ys @ a # zs"
  shows "linked (migrate k ys a h s) (moved xss k ys a zs h)"
proof -
  from p have d: "distinct (concat xss)" by (simp add: partition_of_def)
  have l1: "linked (set_next (prev_ptr (HeadOf k) ys) (nxt (bufs s a)) s) (xss[k := ys @ zs])"
    using linked_unlink [OF l d k xs] .
  have a: "a \<notin> set (concat (xss[k := ys @ zs]))"
    using partition_move(1) [OF p k h xs] .
  have h1: "h < length (xss[k := ys @ zs])" using h by simp
  from linked_link [OF l1 a h1] show ?thesis by (simp add: migrate_def moved_def)
qed

lemma scan_init_inv: "scan_inv bs xss 0 scan_init"
  by (simp add: scan_inv_def scan_init_def)

lemma scan_quiescent:
  assumes q: "quiescent s" and l: "linked s xss"
  shows "\<exists>v. scan_buckets [0..<length xss] s scan_init = Inr (s\<lparr>spin := scan_locks s v\<rparr>, v) \<and>
             scan_inv (bufs s) xss (length xss) v"
proof -
  have "\<forall>i. spin s (BucketLock i) \<longleftrightarrow> lru_buk_id scan_init = int i"
    using q by (simp add: quiescent_def scan_init_def)
  moreover have "\<forall>i<length xss. is_chain (bufs s) (heads s i) (xss ! i)"
    using l by (simp add: linked_def)
  ultimately show ?thesis
    using scan_buckets_inv [of "length xss" s xss 0 scan_init] scan_init_inv by simp
qed

lemma bget_slow_none:
  assumes q: "quiescent s" and l: "linked s xss"
    and full: "\<forall>i<length xss. \<forall>b\<in>set (xss ! i). \<not> free (bufs s) b"
  shows "bget_slow (length xss) s d n = Inl NullDeref"
proof -
  from scan_quiescent [OF q l] obtain v
    where sc: "scan_buckets [0..<length xss] s scan_init = Inr (s\<lparr>spin := scan_locks s v\<rparr>, v)"
      and inv: "scan_inv (bufs s) xss (length xss) v" by blast
  have "prev_lru_b v = None"
  proof (rule ccontr)
    assume "prev_lru_b v \<noteq> None"
    with inv obtain k ys a zs where "chosen (bufs s) xss (length xss) k ys a zs"
      by (auto simp: scan_inv_def)
    then have "k < length xss" "a \<in> set (xss ! k)" "free (bufs s) a"
      by (auto simp: chosen_def)
    with full show False by blast
  qed
  with sc show ?thesis by (simp add: bget_slow_def bget_steal_def)
qed

lemma bget_slow_victim:
  assumes q: "quiescent s" and l: "linked s xss" and p: "partition_of nbuf xss"
    and h: "hash (length xss) d n < length xss"
    and ex: "\<exists>i<length xss. \<exists>b\<in>set (xss ! i). free (bufs s) b"
  shows "\<exists>k ys a zs b s'. chosen (bufs s) xss (length xss) k ys a zs \<and>
           bget_slow (length xss) s d n = Inr (b, s') \<and>
           installed (migrate k ys a (hash (length xss) d n) s) a
             ((xss[k := ys @ zs]) ! hash (length xss) d n) d n b s'"
proof -
  let ?h = "hash (length xss) d n"
  from scan_quiescent [OF q l] obtain v
    where sc: "scan_buckets [0..<length xss] s scan_init = Inr (s\<lparr>spin := scan_locks s v\<rparr>, v)"
      and inv: "scan_inv (bufs s) xss (length xss) v" by blast
  from inv ex obtain k ys a zs where ch: "chosen (bufs s) xss (length xss) k ys a zs"
    and lb: "lru_buk_id v = int k" and pl: "prev_lru_b v = Some (prev_ptr (HeadOf k) ys)"
    by (auto simp: scan_inv_def)
  from ch have k: "k < length xss" and xs: "xss ! k = ys @ a # zs" by (simp_all add: chosen_def)
  let ?s1 = "s\<lparr>spin := scan_locks s v\<rparr>"
  let ?s2 = "set_next (prev_ptr (HeadOf k) ys) (nxt (bufs s a)) s"
  have "is_chain (bufs s) (heads s k) (xss ! k)" using l k by (simp add: linked_def)
  then have c1: "is_chain (bufs ?s1) (heads ?s1 k) (ys @ a # zs)" using xs by simp
  have sp: "(scan_locks s v)(BucketLock k := False) = spin s"
    using q lb by (auto simp: fun_eq_iff scan_locks_def quiescent_def split: spinlock.splits)
  have "release (BucketLock k) (set_next (prev_ptr (HeadOf k) ys) (nxt (bufs ?s1 a)) ?s1) = ?s2"
    using sp by (cases "prev_ptr (HeadOf k) ys") (simp_all add: release_def upd_buf_def)
  with steal_chosen [OF c1 pl lb] have st: "bget_steal ?s1 v = Inr (?s2, Some a)" by simp
  from p have d: "distinct (concat xss)" by (simp add: partition_of_def)
  have l2: "linked ?s2 (xss[k := ys @ zs])" using linked_unlink [OF l d k xs] .
  then have c2: "is_chain (bufs ?s2) (heads ?s2 ?h) ((xss[k := ys @ zs]) ! ?h)"
    using h by (simp add: linked_def)
  have "a \<notin> set (concat (xss[k := ys @ zs]))" using partition_move(1) [OF p k h xs] .
  then have a: "a \<notin> set ((xss[k := ys @ zs]) ! ?h)"
    using nth_subset_concat [of ?h "xss[k := ys @ zs]"] h by auto
  have b: "\<not> spin ?s2 BcacheLock" "\<not> spin ?s2 (BucketLock ?h)"
    using q by (simp_all add: quiescent_def)
  from bget_install_victim [OF b c2 a, of d n]
  obtain b s' where i: "bget_install ?h ?s2 (Some a) d n = Inr (b, s')"
    and j: "installed (relink ?h a ?s2) a ((xss[k := ys @ zs]) ! ?h) d n b s'"
    by blast
  have "bget_slow (length xss) s d n = Inr (b, s')"
    unfolding bget_slow_def by (simp add: sc st i)
  with ch j show ?thesis unfolding migrate_def by blast
qed

lemma cache_inv_frame:
  assumes "cache_inv nbuf nbuk s" and "heads s' = heads s" and "spin s' = spin s"
    and "\<And>a. nxt (bufs s' a) = nxt (bufs s a)"
  shows "cache_inv nbuf nbuk s'"
  using assms linked_frame [of s' s] by (auto simp: cache_inv_def quiescent_def)

lemma installed_nxt:
  "installed sm a xs d n b s' \<Longrightarrow> nxt (bufs s' c) = nxt (bufs sm c)"
  by (auto simp: installed_def split: option.splits)

lemma installed_linked:
  assumes "installed sm a xs d n b s'" and "linked sm xss"
  shows "linked s' xss"
proof -
  have "heads s' = heads sm" using assms(1) by (simp add: installed_def)
  with linked_frame [of s' sm xss] installed_nxt [OF assms(1)] assms(2) show ?thesis by simp
qed

lemma hash_less: "0 < nbuk \<Longrightarrow> hash nbuk d n < nbuk"
  by (simp add: hash_def)

lemma partition_moved:
  assumes "partition_of nbuf xss" "k < length xss" "h < length xss" "xss ! k = ys @ a # zs"
  shows "partition_of nbuf (moved xss k ys a zs h)"
  using partition_move(2) [OF assms] by (simp add: moved_def)

lemma length_moved [simp]: "length (moved xss k ys a zs h) = length xss"
  by (simp add: moved_def)

lemma bget_pick_cases:
  assumes q: "quiescent s" and l: "linked s xss" and p: "partition_of nbuf xss"
    and nbuk: "0 < length xss"
  obtains
    (hit) b where "find (matches (bufs s) d n) (xss ! hash (length xss) d n) = Some b"
      "bget_pick (length xss) s d n = Inr (b, upd_buf b (\<lambda>x. x\<lparr>refcnt := refcnt x + 1\<rparr>) s)"
  | (full) "find (matches (bufs s) d n) (xss ! hash (length xss) d n) = None"
      "\<forall>i<length xss. \<forall>b\<in>set (xss ! i). \<not> free (bufs s) b"
      "bget_pick (length xss) s d n = Inl NullDeref"
  | (miss) k ys a zs b s' where
      "find (matches (bufs s) d n) (xss ! hash (length xss) d n) = None"
      "chosen (bufs s) xss (length xss) k ys a zs"
      "bget_pick (length xss) s d n = Inr (b, s')"
      "installed (migrate k ys a (hash (length xss) d n) s) a
         ((xss[k := ys @ zs]) ! hash (length xss) d n) d n b s'"
proof -
  let ?h = "hash (length xss) d n"
  have h: "?h < length xss" using nbuk by (rule hash_less)
  have nl: "\<not> spin s (BucketLock ?h)" using q by (simp add: quiescent_def)
  have c: "is_chain (bufs s) (heads s ?h) (xss ! ?h)" using l h by (simp add: linked_def)
  note fast = bget_fast_result [OF nl c]
  show thesis
  proof (cases "find (matches (bufs s) d n) (xss ! ?h)")
    case (Some b)
    with fast have "bget_pick (length xss) s d n = Inr (b, upd_buf b (\<lambda>x. x\<lparr>refcnt := refcnt x + 1\<rparr>) s)"
      by (simp add: bget_pick_def)
    with Some show thesis by (rule hit)
  next
    case None
    with fast have pick: "bget_pick (length xss) s d n = bget_slow (length xss) s d n"
      by (simp add: bget_pick_def)
    show thesis
    proof (cases "\<exists>i<length xss. \<exists>b\<in>set (xss ! i). free (bufs s) b")
      case True
      from bget_slow_victim [OF q l p h True] pick None show thesis
        by (auto intro: miss)
    next
      case False
      then have f: "\<forall>i<length xss. \<forall>b\<in>set (xss ! i). \<not> free (bufs s) b" by blast
      from bget_slow_none [OF q l f] pick None f show thesis by (auto intro: full)
    qed
  qed
qed

lemma bget_pick_inv:
  assumes inv: "cache_inv nbuf nbuk s" and nbuk: "0 < nbuk"
    and r: "bget_pick nbuk s d n = Inr (b, s')"
  shows "cache_inv nbuf nbuk s'"
proof -
  from inv obtain xss where q: "quiescent s" and len: "length xss = nbuk"
    and l: "linked s xss" and p: "partition_of nbuf xss"
    by (auto simp: cache_inv_def)
  from nbuk len have pos: "0 < length xss" by simp
  let ?h = "hash (length xss) d n"
  have h: "?h < length xss" using pos by (rule hash_less)
  from q l p pos show ?thesis
  proof (cases rule: bget_pick_cases [where d = d and n = n])
    case (hit b0)
    with r len have "s' = upd_buf b0 (\<lambda>x. x\<lparr>refcnt := refcnt x + 1\<rparr>) s" by simp
    then show ?thesis using inv by (intro cache_inv_frame [OF inv]) simp_all
  next
    case full
    with r len show ?thesis by simp
  next
    case (miss k ys a zs b0 s0)
    with r len have s': "s0 = s'" by simp
    from miss(2) have k: "k < length xss" and xs: "xss ! k = ys @ a # zs"
      by (simp_all add: chosen_def)
    have "linked (migrate k ys a ?h s) (moved xss k ys a zs ?h)"
      using migrate_linked [OF l p k h xs] .
    with miss(4) have "linked s0 (moved xss k ys a zs ?h)" by (rule installed_linked)
    moreover have "partition_of nbuf (moved xss k ys a zs ?h)"
      using partition_moved [OF p k h xs] .
    moreover have "quiescent s0" using miss(4) q by (simp add: installed_def quiescent_def)
    ultimately show ?thesis using len s' unfolding cache_inv_def
      by (intro conjI exI [of _ "moved xss k ys a zs ?h"]) simp_all
  qed
qed

subsection \<open>binit\<close>

lemma initsleeplock_sel [simp]:
  "bufs (initsleeplock b s) = (bufs s)(b := (bufs s b)\<lparr>slk := None\<rparr>)"
  "heads (initsleeplock b s) = heads s"
  "spin (initsleeplock b s) = spin s"
  "disk (initsleeplock b s) = disk s"
  "io_log (initsleeplock b s) = io_log s"
  by (simp_all add: initsleeplock_def)

lemma set_next_heads:
  "heads (set_next p v s) i = (if p = HeadOf i then v else heads s i)"
  by (cases p) auto

lemma set_next_nxt:
  "nxt (bufs (set_next p v s) c) = (if p = BufAt c then v else nxt (bufs s c))"
  by (cases p) auto

lemma next_of_set_next:
  "next_of (set_next p v s) q = (if q = p then v else next_of s q)"
  by (cases p; cases q) auto

lemma next_of_frame:
  "heads s' = heads s \<Longrightarrow> (\<And>c. nxt (bufs s' c) = nxt (bufs s c)) \<Longrightarrow> next_of s' q = next_of s q"
  by (cases q) auto

lemma binit_bufs_Cons:
  "binit_bufs (b # bs) nbuf ticks prev_b s = binit_bufs bs nbuf ticks (BufAt b) (binit_buf b nbuf ticks prev_b s)"
  by (simp add: binit_buf_def Let_def)

lemma binit_buf_next:
  "next_of (binit_buf b nbuf ticks prev_b s) q =
     (if q = prev_b then Some b else if q = BufAt b \<and> Suc b = nbuf then None else next_of s q)"
  unfolding binit_buf_def
  by (cases q) (auto simp: set_next_heads set_next_nxt)

lemma binit_buf_sel [simp]:
  "spin (binit_buf b nbuf ticks prev_b s) = spin s"
  "disk (binit_buf b nbuf ticks prev_b s) = disk s"
  "io_log (binit_buf b nbuf ticks prev_b s) = io_log s"
  "dev (bufs (binit_buf b nbuf ticks prev_b s) c) = dev (bufs s c)"
  "blockno (bufs (binit_buf b nbuf ticks prev_b s) c) = blockno (bufs s c)"
  "valid (bufs (binit_buf b nbuf ticks prev_b s) c) = valid (bufs s c)"
  "refcnt (bufs (binit_buf b nbuf ticks prev_b s) c) = refcnt (bufs s c)"
  "data (bufs (binit_buf b nbuf ticks prev_b s) c) = data (bufs s c)"
  by (simp_all add: binit_buf_def)

lemma binit_buf_stamp:
  "timestamp (bufs (binit_buf b nbuf ticks prev_b s) c) = (if c = b then ticks else timestamp (bufs s c))"
  "slk (bufs (binit_buf b nbuf ticks prev_b s) c) = (if c = b then None else slk (bufs s c))"
  by (simp_all add: binit_buf_def)

lemma binit_bufs_sel [simp]:
  "spin (binit_bufs bs nbuf ticks prev_b s) = spin s"
  "disk (binit_bufs bs nbuf ticks prev_b s) = disk s"
  "io_log (binit_bufs bs nbuf ticks prev_b s) = io_log s"
  "dev (bufs (binit_bufs bs nbuf ticks prev_b s) c) = dev (bufs s c)"
  "blockno (bufs (binit_bufs bs nbuf ticks prev_b s) c) = blockno (bufs s c)"
  "valid (bufs (binit_bufs bs nbuf ticks prev_b s) c) = valid (bufs s c)"
  "refcnt (bufs (binit_bufs bs nbuf ticks prev_b s) c) = refcnt (bufs s c)"
  "data (bufs (binit_bufs bs nbuf ticks prev_b s) c) = data (bufs s c)"
  by (induction bs arbitrary: prev_b s; simp only: binit_bufs_Cons binit_bufs.simps binit_buf_sel)+

lemma binit_bufs_stamp:
  "timestamp (bufs (binit_bufs bs nbuf ticks prev_b s) c) = (if c \<in> set bs then ticks else timestamp (bufs s c))"
  "slk (bufs (binit_bufs bs nbuf ticks prev_b s) c) = (if c \<in> set bs then None else slk (bufs s c))"
  by (induction bs arbitrary: prev_b s; simp add: binit_bufs_Cons binit_buf_stamp del: binit_bufs.simps(2))+

lemma binit_bufs_frame:
  "q \<noteq> prev_b \<Longrightarrow> q \<notin> BufAt ` set bs \<Longrightarrow>
   next_of (binit_bufs bs nbuf ticks prev_b s) q = next_of s q"
proof (induction bs arbitrary: prev_b s)
  case Nil
  show ?case by simp
next
  case (Cons b bs)
  then show ?case
    by (simp only: binit_bufs_Cons) (simp add: binit_buf_next)
qed

lemma binit_bufs_chain:
  assumes "\<And>c. prev_b = BufAt c \<Longrightarrow> c < j" and "j = nbuf \<Longrightarrow> next_of s prev_b = None"
    and "j \<le> nbuf"
  shows "is_chain (bufs (binit_bufs [j..<nbuf] nbuf ticks prev_b s))
           (next_of (binit_bufs [j..<nbuf] nbuf ticks prev_b s) prev_b) [j..<nbuf]"
  using assms
proof (induction "nbuf - j" arbitrary: j prev_b s)
  case 0
  then show ?case by simp
next
  case (Suc m)
  then have jl: "j < nbuf" by simp
  then have upt: "[j..<nbuf] = j # [Suc j..<nbuf]" by (simp add: upt_conv_Cons)
  let ?s1 = "binit_buf j nbuf ticks prev_b s"
  let ?s' = "binit_bufs [Suc j..<nbuf] nbuf ticks (BufAt j) ?s1"
  have pj: "prev_b \<noteq> BufAt j" using Suc.prems(1) [of j] by auto
  have m: "m = nbuf - Suc j" using Suc.hyps(2) by simp
  have ih: "is_chain (bufs ?s') (next_of ?s' (BufAt j)) [Suc j..<nbuf]"
  proof (rule Suc.hyps(1) [OF m])
    show "Suc j \<le> nbuf" using jl by simp
    show "next_of ?s1 (BufAt j) = None" if "Suc j = nbuf"
      using that pj binit_buf_next [of j nbuf ticks prev_b s "BufAt j"] by simp
    show "c < Suc j" if "BufAt j = BufAt c" for c using that by simp
  qed
  have "prev_b \<notin> BufAt ` set [Suc j..<nbuf]" using Suc.prems(1) by auto
  with pj have "next_of ?s' prev_b = next_of ?s1 prev_b" by (intro binit_bufs_frame) auto
  then have pn: "next_of ?s' prev_b = Some j"
    using binit_buf_next [of j nbuf ticks prev_b s prev_b] by simp
  show ?case
    unfolding upt binit_bufs_Cons using ih pn by simp
qed

lemma binit_buckets_tail:
  assumes "0 \<notin> set is"
  shows "bufs (binit_buckets is nbuf ticks s) = bufs s"
    and "heads (binit_buckets is nbuf ticks s) = (\<lambda>j. if j \<in> set is then None else heads s j)"
    and "spin (binit_buckets is nbuf ticks s) =
           (\<lambda>l. if l \<in> BucketLock ` set is then False else spin s l)"
    and "disk (binit_buckets is nbuf ticks s) = disk s"
    and "io_log (binit_buckets is nbuf ticks s) = io_log s"
  using assms by (induction "is" arbitrary: s; auto simp: Let_def fun_eq_iff)+

lemma binit_unfold:
  "0 < nbuk \<Longrightarrow>
   binit nbuf nbuk ticks s = binit_buckets [1..<nbuk] nbuf ticks (binit_first nbuf ticks s)"
  by (simp add: binit_def binit_first_def upt_conv_Cons Let_def)

lemma binit_first_chain:
  "is_chain (bufs (binit_first nbuf ticks s)) (heads (binit_first nbuf ticks s) 0) [0..<nbuf]"
  using binit_bufs_chain [of "HeadOf 0" 0 nbuf
      "set_next (HeadOf 0) None (initlock (BucketLock 0) (initlock BcacheLock s))" ticks]
  by (simp add: binit_first_def)

lemma binit_first_heads:
  "i \<noteq> 0 \<Longrightarrow> heads (binit_first nbuf ticks s) i = heads s i"
  using binit_bufs_frame [of "HeadOf i" "HeadOf 0" "[0..<nbuf]" nbuf ticks
      "set_next (HeadOf 0) None (initlock (BucketLock 0) (initlock BcacheLock s))"]
  by (auto simp: binit_first_def)

lemma binit_first_sel [simp]:
  "spin (binit_first nbuf ticks s) = (spin s)(BcacheLock := False, BucketLock 0 := False)"
  "disk (binit_first nbuf ticks s) = disk s"
  "io_log (binit_first nbuf ticks s) = io_log s"
  "dev (bufs (binit_first nbuf ticks s) c) = dev (bufs s c)"
  "blockno (bufs (binit_first nbuf ticks s) c) = blockno (bufs s c)"
  "valid (bufs (binit_first nbuf ticks s) c) = valid (bufs s c)"
  "refcnt (bufs (binit_first nbuf ticks s) c) = refcnt (bufs s c)"
  "data (bufs (binit_first nbuf ticks s) c) = data (bufs s c)"
  by (simp_all add: binit_first_def)

text \<open>\<open>binit\<close> leaves the identity, the flag and the count of every buffer as it finds them.\<close>

lemma binit_fields:
  assumes "0 < nbuk"
  shows "dev (bufs (binit nbuf nbuk ticks s) c) = dev (bufs s c)"
    and "blockno (bufs (binit nbuf nbuk ticks s) c) = blockno (bufs s c)"
    and "valid (bufs (binit nbuf nbuk ticks s) c) = valid (bufs s c)"
    and "refcnt (bufs (binit nbuf nbuk ticks s) c) = refcnt (bufs s c)"
    and "data (bufs (binit nbuf nbuk ticks s) c) = data (bufs s c)"
  using assms by (simp_all add: binit_unfold binit_buckets_tail)

lemma binit_stamp:
  assumes "0 < nbuk"
  shows "timestamp (bufs (binit nbuf nbuk ticks s) c) = (if c < nbuf then ticks else timestamp (bufs s c))"
    and "slk (bufs (binit nbuf nbuk ticks s) c) = (if c < nbuf then None else slk (bufs s c))"
  using assms by (simp_all add: binit_unfold binit_buckets_tail binit_first_def binit_bufs_stamp)

lemma binit_linked:
  assumes nbuk: "0 < nbuk" and empty: "\<And>i. heads s i = None"
  shows "linked (binit nbuf nbuk ticks s) (boot_lists nbuf nbuk)"
  unfolding linked_def
proof (intro allI impI)
  let ?s = "binit nbuf nbuk ticks s"
  fix i
  assume "i < length (boot_lists nbuf nbuk)"
  then have i: "i < nbuk" using nbuk by (simp add: boot_lists_def)
  show "is_chain (bufs ?s) (heads ?s i) (boot_lists nbuf nbuk ! i)"
  proof (cases "i = 0")
    case True
    with nbuk binit_first_chain [of nbuf ticks s] show ?thesis
      by (simp add: binit_unfold binit_buckets_tail boot_lists_def)
  next
    case False
    with nbuk i empty show ?thesis
      by (simp add: binit_unfold binit_buckets_tail boot_lists_def binit_first_heads)
  qed
qed

lemma boot_lists_partition: "0 < nbuk \<Longrightarrow> partition_of nbuf (boot_lists nbuf nbuk)"
  by (auto simp: partition_of_def boot_lists_def)

lemma boot_quiescent: "0 < nbuk \<Longrightarrow> quiescent (boot nbuf nbuk ticks dsk)"
  by (simp add: quiescent_def boot_def binit_unfold binit_buckets_tail bcache_zero_def)

lemma boot_inv: "0 < nbuk \<Longrightarrow> cache_inv nbuf nbuk (boot nbuf nbuk ticks dsk)"
  unfolding cache_inv_def
  by (intro conjI boot_quiescent exI [of _ "boot_lists nbuf nbuk"])
     (simp_all add: boot_lists_partition boot_def binit_linked bcache_zero_def, simp add: boot_lists_def)

lemma boot_fields:
  assumes "0 < nbuk"
  shows "dev (bufs (boot nbuf nbuk ticks dsk) c) = 0"
    and "blockno (bufs (boot nbuf nbuk ticks dsk) c) = 0"
    and "valid (bufs (boot nbuf nbuk ticks dsk) c) = False"
    and "refcnt (bufs (boot nbuf nbuk ticks dsk) c) = 0"
    and "slk (bufs (boot nbuf nbuk ticks dsk) c) = None"
  using assms by (simp_all add: boot_def binit_fields binit_stamp bcache_zero_def buf_zero_def)

subsection \<open>Membership\<close>

lemma chain_from_is_chain:
  "is_chain bs p xs \<Longrightarrow> length xs \<le> fuel \<Longrightarrow> chain_from fuel bs p = Some xs"
proof (induction xs arbitrary: p fuel)
  case Nil
  then show ?case by simp
next
  case (Cons a xs)
  then obtain f where "fuel = Suc f" by (cases fuel) auto
  with Cons show ?case by simp
qed

lemma partition_length:
  assumes p: "partition_of nbuf xss" and i: "i < length xss"
  shows "length (xss ! i) \<le> nbuf"
proof -
  from p have d: "distinct (concat xss)" and s: "set (concat xss) = {..<nbuf}"
    by (simp_all add: partition_of_def)
  from d i have "distinct (xss ! i)" using nth_mem [OF i] by (auto simp: distinct_concat_iff)
  then have "length (xss ! i) = card (set (xss ! i))" by (simp add: distinct_card)
  also have "\<dots> \<le> card {..<nbuf}"
    using nth_subset_concat [OF i] s by (intro card_mono) auto
  finally show ?thesis by simp
qed

lemma bucket_list_linked:
  assumes "linked s xss" and "partition_of nbuf xss" and "i < length xss"
  shows "bucket_list nbuf s i = Some (xss ! i)"
  unfolding bucket_list_def using assms
  by (intro chain_from_is_chain partition_length) (auto simp: linked_def)

lemma partition_owner:
  assumes p: "partition_of nbuf xss" and b: "b < nbuf"
  shows "\<exists>!i. i < length xss \<and> b \<in> set (xss ! i)"
proof -
  from p have d: "distinct (concat xss)" and s: "set (concat xss) = {..<nbuf}"
    by (simp_all add: partition_of_def)
  from b s have "b \<in> set (concat xss)" by simp
  then obtain ys where "ys \<in> set xss" "b \<in> set ys" by auto
  then obtain i where i: "i < length xss" "b \<in> set (xss ! i)"
    by (metis in_set_conv_nth)
  show ?thesis
  proof (rule ex1I [of _ i])
    show "i < length xss \<and> b \<in> set (xss ! i)" using i by simp
    fix j
    assume j: "j < length xss \<and> b \<in> set (xss ! j)"
    show "j = i"
    proof (rule ccontr)
      assume "j \<noteq> i"
      with distinct_concat_disjoint [OF d] i j show False by blast
    qed
  qed
qed


lemma acquiresleep_frame:
  assumes "acquiresleep pid b s = Some s'"
  shows "heads s' = heads s" "spin s' = spin s" "nxt (bufs s' a) = nxt (bufs s a)"
    "disk s' = disk s" "io_log s' = io_log s"
    "dev (bufs s' a) = dev (bufs s a)" "blockno (bufs s' a) = blockno (bufs s a)"
    "refcnt (bufs s' a) = refcnt (bufs s a)" "valid (bufs s' a) = valid (bufs s a)"
    "timestamp (bufs s' a) = timestamp (bufs s a)" "data (bufs s' a) = data (bufs s a)"
    "slk (bufs s' a) = (if a = b then Some pid else slk (bufs s a))"
  using assms by (auto simp: acquiresleep_def split: option.splits if_splits)

lemma bget_inv:
  assumes inv: "cache_inv nbuf nbuk s" and nbuk: "0 < nbuk"
    and r: "bget nbuk pid s d n = Inr (b, s')"
  shows "cache_inv nbuf nbuk s'"
proof -
  from r obtain s1 where p: "bget_pick nbuk s d n = Inr (b, s1)"
    and a: "acquiresleep pid b s1 = Some s'"
    by (auto simp: bget_def split: sum.splits option.splits)
  from bget_pick_inv [OF inv nbuk p] have "cache_inv nbuf nbuk s1" .
  then show ?thesis by (rule cache_inv_frame) (simp_all add: acquiresleep_frame [OF a])
qed

lemma virtio_disk_rw_frame [simp]:
  "heads (virtio_disk_rw b w s) = heads s"
  "spin (virtio_disk_rw b w s) = spin s"
  "nxt (bufs (virtio_disk_rw b w s) a) = nxt (bufs s a)"
  by (simp_all add: virtio_disk_rw_def Let_def)

lemma bread_inv:
  assumes inv: "cache_inv nbuf nbuk s" and nbuk: "0 < nbuk"
    and r: "bread nbuk pid s d n = Inr (b, s')"
  shows "cache_inv nbuf nbuk s'"
proof -
  from r obtain s1 where g: "bget nbuk pid s d n = Inr (b, s1)"
    and s': "s' = (if \<not> valid (bufs s1 b)
                   then upd_buf b (\<lambda>x. x\<lparr>valid := True\<rparr>) (virtio_disk_rw b False s1) else s1)"
    by (auto simp: bread_def split: sum.splits if_splits)
  from bget_inv [OF inv nbuk g] have "cache_inv nbuf nbuk s1" .
  then show ?thesis by (rule cache_inv_frame) (simp_all add: s')
qed

lemma bwrite_inv:
  assumes inv: "cache_inv nbuf nbuk s" and r: "bwrite pid s b = Inr s'"
  shows "cache_inv nbuf nbuk s'"
proof -
  from r have "s' = virtio_disk_rw b True s" by (auto simp: bwrite_def split: if_splits)
  with inv show ?thesis by (intro cache_inv_frame [OF inv]) simp_all
qed

lemma brelse_frame:
  assumes q: "quiescent s" and r: "brelse nbuk pid ticks s b = Inr s'"
  shows "heads s' = heads s" "spin s' = spin s" "nxt (bufs s' a) = nxt (bufs s a)"
  using assms
  by (auto simp: brelse_def Let_def releasesleep_def acquire_def quiescent_def
      split: if_splits)

lemma bpin_frame:
  assumes q: "quiescent s" and r: "bpin nbuk s b = Inr s'"
  shows "heads s' = heads s" "spin s' = spin s" "nxt (bufs s' a) = nxt (bufs s a)"
  using assms
  by (auto simp: bpin_def Let_def acquire_def quiescent_def split: if_splits)

lemma bunpin_frame:
  assumes q: "quiescent s" and r: "bunpin nbuk s b = Inr s'"
  shows "heads s' = heads s" "spin s' = spin s" "nxt (bufs s' a) = nxt (bufs s a)"
  using assms
  by (auto simp: bunpin_def Let_def acquire_def quiescent_def split: if_splits)

lemma do_call_inv:
  assumes inv: "cache_inv nbuf nbuk s" and nbuk: "0 < nbuk" and r: "do_call nbuk c s = Inr s'"
  shows "cache_inv nbuf nbuk s'"
proof -
  from inv have q: "quiescent s" by (simp add: cache_inv_def)
  show ?thesis
  proof (cases c)
    case (Bget pid d n)
    with r obtain b where "bget nbuk pid s d n = Inr (b, s')" by (auto split: sum.splits)
    with inv nbuk show ?thesis by (rule bget_inv)
  next
    case (Bread pid d n)
    with r obtain b where "bread nbuk pid s d n = Inr (b, s')" by (auto split: sum.splits)
    with inv nbuk show ?thesis by (rule bread_inv)
  next
    case (Bwrite pid b)
    with r inv show ?thesis by (auto intro: bwrite_inv)
  next
    case (Brelse pid ticks b)
    with r have "brelse nbuk pid ticks s b = Inr s'" by simp
    from brelse_frame [OF q this] show ?thesis by (intro cache_inv_frame [OF inv]) simp_all
  next
    case (Bpin b)
    with r have "bpin nbuk s b = Inr s'" by simp
    from bpin_frame [OF q this] show ?thesis by (intro cache_inv_frame [OF inv]) simp_all
  next
    case (Bunpin b)
    with r have "bunpin nbuk s b = Inr s'" by simp
    from bunpin_frame [OF q this] show ?thesis by (intro cache_inv_frame [OF inv]) simp_all
  qed
qed

lemma run_inv:
  "cache_inv nbuf nbuk s \<Longrightarrow> 0 < nbuk \<Longrightarrow> run nbuk cs s = Inr s' \<Longrightarrow> cache_inv nbuf nbuk s'"
proof (induction cs arbitrary: s)
  case Nil
  then show ?case by simp
next
  case (Cons c cs)
  from Cons.prems(3) obtain s1 where c: "do_call nbuk c s = Inr s1" and r: "run nbuk cs s1 = Inr s'"
    by (auto split: sum.splits)
  from do_call_inv [OF Cons.prems(1,2) c] Cons.IH [OF _ Cons.prems(2) r] show ?case by blast
qed



subsection \<open>Identity uniqueness\<close>

lemma first_hit_cong:
  "(\<And>a. a \<in> set xs \<Longrightarrow> agree bs' bs a) \<Longrightarrow> first_hit bs' xs = first_hit bs xs"
  by (induction xs) (auto simp: agree_def same_block_def)

lemma first_hit_remove: "first_hit bs (ys @ a # zs) \<Longrightarrow> first_hit bs (ys @ zs)"
  by (induction ys) auto

lemma first_hit_pair:
  "first_hit bs (us @ x # vs) \<Longrightarrow> y \<in> set vs \<Longrightarrow> refcnt (bs y) \<noteq> 0 \<Longrightarrow> \<not> same_block bs y x"
  by (induction us) auto

lemma first_hit_bump:
  assumes "distinct xs" and "first_hit bs xs" and "find (matches bs d n) xs = Some b"
    and "\<And>a. a \<noteq> b \<Longrightarrow> agree bs' bs a"
    and "dev (bs' b) = dev (bs b)" and "blockno (bs' b) = blockno (bs b)"
  shows "first_hit bs' xs"
  using assms(1-3)
proof (induction xs)
  case Nil
  then show ?case by simp
next
  case (Cons a as)
  show ?case
  proof (cases "matches bs d n a")
    case True
    with Cons.prems have ba: "b = a" by simp
    with Cons.prems(1) have nb: "b \<notin> set as" by simp
    have ag: "agree bs' bs c" if "c \<in> set as" for c
      using that nb by (intro assms(4)) auto
    then have "first_hit bs' as = first_hit bs as" by (rule first_hit_cong)
    moreover have "\<forall>c\<in>set as. refcnt (bs' c) \<noteq> 0 \<longrightarrow> \<not> same_block bs' c a"
      using Cons.prems(2) ag assms(5,6) ba by (auto simp: agree_def same_block_def)
    ultimately show ?thesis using Cons.prems(2) by simp
  next
    case False
    with Cons.prems have f: "find (matches bs d n) as = Some b" by simp
    then have bm: "matches bs d n b" and bin: "b \<in> set as"
      by (auto simp: find_Some_iff)
    from bin Cons.prems(1) have ne: "a \<noteq> b" by auto
    from Cons.IH Cons.prems f have ih: "first_hit bs' as" by simp
    have "\<not> same_block bs' c a" if c: "c \<in> set as" and l: "refcnt (bs' c) \<noteq> 0" for c
    proof (cases "c = b")
      case True
      with bm False assms(4) [OF ne] assms(5,6) show ?thesis
        by (auto simp: matches_def same_block_def agree_def)
    next
      case cb: False
      with Cons.prems(2) c l assms(4) [OF cb] assms(4) [OF ne] show ?thesis
        by (auto simp: same_block_def agree_def)
    qed
    with ih show ?thesis by simp
  qed
qed

lemma first_hit_fresh:
  assumes "first_hit bs xs" and "a \<notin> set xs" and "find (matches bs d n) xs = None"
    and "\<And>c. c \<in> set xs \<Longrightarrow> agree bs' bs c" and "dev (bs' a) = d" and "blockno (bs' a) = n"
  shows "first_hit bs' (a # xs)"
proof -
  have "first_hit bs' xs" using first_hit_cong [of xs bs' bs] assms(1,4) by simp
  moreover have "\<not> same_block bs' c a" if "c \<in> set xs" for c
    using assms(3) assms(4) [of c] that assms(5,6)
    by (auto simp: find_None_iff matches_def same_block_def agree_def)
  ultimately show ?thesis by simp
qed

lemma two_in_list:
  assumes "a \<in> set xs" and "b \<in> set xs" and "a \<noteq> b"
  shows "\<exists>us x vs y. xs = us @ x # vs \<and> y \<in> set vs \<and> (x = a \<and> y = b \<or> x = b \<and> y = a)"
proof -
  from assms(1) obtain us vs where xs: "xs = us @ a # vs" by (auto simp: in_set_conv_decomp)
  with assms(2,3) consider "b \<in> set us" | "b \<in> set vs" by auto
  then show ?thesis
  proof cases
    case 1
    then obtain us1 us2 where "us = us1 @ b # us2" by (auto simp: in_set_conv_decomp)
    with xs have "xs = us1 @ b # (us2 @ a # vs)" "a \<in> set (us2 @ a # vs)" by simp_all
    then show ?thesis by blast
  next
    case 2
    with xs show ?thesis by blast
  qed
qed

lemma uniq_inv_unique:
  assumes inv: "uniq_inv nbuf nbuk s" and a: "a < nbuf" and b: "b < nbuf" and ne: "a \<noteq> b"
    and la: "refcnt (bufs s a) \<noteq> 0" and lb: "refcnt (bufs s b) \<noteq> 0"
  shows "\<not> same_block (bufs s) a b"
proof
  assume sb: "same_block (bufs s) a b"
  from inv obtain xss where len: "length xss = nbuk" and p: "partition_of nbuf xss"
    and pl: "placed nbuk (bufs s) xss" and fh: "\<forall>i<nbuk. first_hit (bufs s) (xss ! i)"
    by (auto simp: uniq_inv_def)
  from partition_owner [OF p a] obtain i where i: "i < length xss" "a \<in> set (xss ! i)" by blast
  from partition_owner [OF p b] obtain j where j: "j < length xss" "b \<in> set (xss ! j)" by blast
  from pl i have "hash nbuk (dev (bufs s a)) (blockno (bufs s a)) = i" by (simp add: placed_def)
  moreover from pl j have "hash nbuk (dev (bufs s b)) (blockno (bufs s b)) = j" by (simp add: placed_def)
  ultimately have "i = j" using sb by (simp add: same_block_def)
  with two_in_list [OF i(2) _ ne] j obtain us x vs y
    where xs: "xss ! i = us @ x # vs" and y: "y \<in> set vs"
      and xy: "x = a \<and> y = b \<or> x = b \<and> y = a" by blast
  from fh i len xs have "first_hit (bufs s) (us @ x # vs)" by (metis)
  from first_hit_pair [OF this y] xy la lb sb show False
    by (auto simp: same_block_def)
qed

lemma unlinked_subset:
  assumes "k < length xss" and "xss ! k = ys @ a # zs" and "i < length xss"
  shows "set ((xss[k := ys @ zs]) ! i) \<subseteq> set (xss ! i)"
  using assms by (cases "i = k") auto

lemma first_hit_unlinked:
  assumes "k < length xss" and "xss ! k = ys @ a # zs" and "i < length xss"
    and "first_hit bs (xss ! i)"
  shows "first_hit bs ((xss[k := ys @ zs]) ! i)"
proof (cases "i = k")
  case True
  with assms have "first_hit bs (ys @ a # zs)" by simp
  then have "first_hit bs (ys @ zs)" by (rule first_hit_remove)
  with True assms(1) show ?thesis by simp
next
  case False
  with assms(4) show ?thesis by simp
qed

lemma moved_nth:
  assumes "h < length xss" and "i < length xss"
  shows "moved xss k ys a zs h ! i =
           (if i = h then a # (xss[k := ys @ zs]) ! h else (xss[k := ys @ zs]) ! i)"
  using assms by (simp add: moved_def)

lemma bget_pick_uniq:
  assumes inv: "uniq_inv nbuf nbuk s" and nbuk: "0 < nbuk"
    and r: "bget_pick nbuk s d n = Inr (b, s')"
  shows "uniq_inv nbuf nbuk s'"
proof -
  from inv obtain xss where q: "quiescent s" and len: "length xss = nbuk"
    and l: "linked s xss" and p: "partition_of nbuf xss"
    and pl: "placed nbuk (bufs s) xss" and fh: "\<forall>i<nbuk. first_hit (bufs s) (xss ! i)"
    by (auto simp: uniq_inv_def)
  from nbuk len have pos: "0 < length xss" by simp
  let ?h = "hash (length xss) d n"
  have h: "?h < length xss" using pos by (rule hash_less)
  from p have dc: "distinct (concat xss)" by (simp add: partition_of_def)
  from q l p pos show ?thesis
  proof (cases rule: bget_pick_cases [where d = d and n = n])
    case (hit b0)
    with r len have s': "s' = upd_buf b0 (\<lambda>x. x\<lparr>refcnt := refcnt x + 1\<rparr>) s" by simp
    have ag: "agree (bufs s') (bufs s) c" if "c \<noteq> b0" for c
      using that by (simp add: s' agree_def)
    from hit(1) have b0h: "b0 \<in> set (xss ! ?h)" by (auto simp: find_Some_iff)
    have "first_hit (bufs s') (xss ! i)" if i: "i < nbuk" for i
    proof (cases "i = ?h")
      case True
      have "distinct (xss ! ?h)" using l h by (auto simp: linked_def dest: is_chain_distinct)
      moreover have "first_hit (bufs s) (xss ! ?h)" using fh h len by simp
      ultimately have "first_hit (bufs s') (xss ! ?h)"
        using hit(1) ag by (rule first_hit_bump) (simp_all add: s')
      with True show ?thesis by simp
    next
      case False
      have "set (xss ! i) \<inter> set (xss ! ?h) = {}"
        using distinct_concat_disjoint [OF dc _ h False] i len by simp
      with b0h have "b0 \<notin> set (xss ! i)" by auto
      then have "first_hit (bufs s') (xss ! i) = first_hit (bufs s) (xss ! i)"
        by (intro first_hit_cong ag) auto
      with fh i show ?thesis by simp
    qed
    moreover have "placed nbuk (bufs s') xss" using pl by (simp add: placed_def s')
    moreover have "linked s' xss" using l linked_frame [of s' s xss] by (simp add: s')
    moreover have "quiescent s'" using q by (simp add: quiescent_def s')
    ultimately show ?thesis using len p unfolding uniq_inv_def by blast
  next
    case full
    with r len show ?thesis by simp
  next
    case (miss k ys a zs b0 s0)
    with r len have s0: "s0 = s'" by simp
    from miss(2) have k: "k < length xss" and xs: "xss ! k = ys @ a # zs"
      by (simp_all add: chosen_def)
    let ?x1 = "xss[k := ys @ zs]"
    let ?x2 = "moved xss k ys a zs ?h"
    let ?sm = "migrate k ys a ?h s"
    have sub: "set (?x1 ! i) \<subseteq> set (xss ! i)" if "i < length xss" for i
      using unlinked_subset [OF k xs that] .
    have nomatch: "\<not> matches (bufs s) d n c" if "c \<in> set (xss ! ?h)" for c
      using miss(1) that by (auto simp: find_None_iff)
    have ak: "a \<in> set (xss ! k)" using xs by simp
    have ma: "matches (bufs ?sm) d n = matches (bufs s) d n"
      by (simp add: matches_def fun_eq_iff)
    have na: "\<not> matches (bufs s) d n a"
    proof
      assume m: "matches (bufs s) d n a"
      from pl k ak have "hash nbuk (dev (bufs s a)) (blockno (bufs s a)) = k"
        by (simp add: placed_def)
      with m len have "k = ?h" by (simp add: matches_def)
      with ak nomatch m show False by blast
    qed
    have f1: "find (matches (bufs s) d n) (?x1 ! ?h) = None"
      using nomatch sub [OF h] by (auto simp: find_None_iff)
    with na have "find (matches (bufs ?sm) d n) (a # ?x1 ! ?h) = None" by (simp add: ma)
    with miss(4) have bs': "bufs s0 = (bufs ?sm)(a := (bufs ?sm a)\<lparr>dev := d, blockno := n, valid := False, refcnt := 1\<rparr>)"
      and sp: "spin s0 = spin s"
      by (simp_all add: installed_def)
    have anot: "a \<notin> set (concat ?x1)" using partition_move(1) [OF p k h xs] .
    have anot': "a \<notin> set (?x1 ! i)" if "i < length xss" for i
      using anot nth_subset_concat [of i ?x1] that by auto
    have ag: "agree (bufs s0) (bufs s) c" if "c \<noteq> a" for c
      using that by (simp add: bs' agree_def)
    have ag1: "agree (bufs s0) (bufs s) c" if "c \<in> set (?x1 ! i)" "i < length xss" for c i
      using that anot' [of i] by (intro ag) auto
    have "linked ?sm ?x2" using migrate_linked [OF l p k h xs] .
    with miss(4) have l': "linked s0 ?x2" by (rule installed_linked)
    have p': "partition_of nbuf ?x2" using partition_moved [OF p k h xs] .
    have q': "quiescent s0" using sp q by (simp add: quiescent_def)
    have pl': "placed nbuk (bufs s0) ?x2"
      unfolding placed_def
    proof (intro allI impI ballI)
      fix i c
      assume "i < length ?x2" and c: "c \<in> set (?x2 ! i)"
      then have i: "i < length xss" by simp
      show "hash nbuk (dev (bufs s0 c)) (blockno (bufs s0 c)) = i"
      proof (cases "c = a")
        case True
        with c anot' [OF i] have "i = ?h" by (auto simp: moved_nth [OF h i] split: if_splits)
        with True len show ?thesis by (simp add: bs')
      next
        case False
        with c have "c \<in> set (?x1 ! i)" by (auto simp: moved_nth [OF h i] split: if_splits)
        with sub [OF i] have "c \<in> set (xss ! i)" by auto
        with pl i have "hash nbuk (dev (bufs s c)) (blockno (bufs s c)) = i"
          by (simp add: placed_def)
        with ag [OF False] show ?thesis by (simp add: agree_def)
      qed
    qed
    have fh': "first_hit (bufs s0) (?x2 ! i)" if i: "i < nbuk" for i
    proof -
      from i len have il: "i < length xss" by simp
      have old: "first_hit (bufs s) (?x1 ! i)"
        using first_hit_unlinked [OF k xs il] fh i by simp
      show ?thesis
      proof (cases "i = ?h")
        case True
        have "first_hit (bufs s0) (a # ?x1 ! ?h)"
        proof (rule first_hit_fresh [where d = d and n = n])
          show "first_hit (bufs s) (?x1 ! ?h)" using old True by simp
          show "a \<notin> set (?x1 ! ?h)" using anot' [OF h] .
          show "find (matches (bufs s) d n) (?x1 ! ?h) = None" using f1 .
          show "agree (bufs s0) (bufs s) c" if "c \<in> set (?x1 ! ?h)" for c
            using ag1 [OF that h] .
          show "dev (bufs s0 a) = d" "blockno (bufs s0 a) = n" by (simp_all add: bs')
        qed
        moreover have "?x2 ! ?h = a # ?x1 ! ?h" using moved_nth [OF h h] by simp
        ultimately show ?thesis using True by simp
      next
        case False
        have "first_hit (bufs s0) (?x1 ! i) = first_hit (bufs s) (?x1 ! i)"
          by (rule first_hit_cong) (rule ag1 [OF _ il])
        with old False show ?thesis by (simp add: moved_nth [OF h il])
      qed
    qed
    from q' l' p' pl' fh' len s0 show ?thesis
      unfolding uniq_inv_def by (intro conjI exI [of _ ?x2]) simp_all
  qed
qed

lemma uniq_inv_frame:
  assumes "uniq_inv nbuf nbuk s" and "heads s' = heads s" and "spin s' = spin s"
    and "\<And>a. nxt (bufs s' a) = nxt (bufs s a)" and "\<And>a. agree (bufs s') (bufs s) a"
  shows "uniq_inv nbuf nbuk s'"
proof -
  from assms(1) obtain xss where q: "quiescent s" and len: "length xss = nbuk"
    and l: "linked s xss" and p: "partition_of nbuf xss"
    and pl: "placed nbuk (bufs s) xss" and fh: "\<forall>i<nbuk. first_hit (bufs s) (xss ! i)"
    by (auto simp: uniq_inv_def)
  have "linked s' xss" using l linked_frame [of s' s xss] assms(2,4) by simp
  moreover have "placed nbuk (bufs s') xss"
    using pl assms(5) by (simp add: placed_def agree_def)
  moreover have "\<forall>i<nbuk. first_hit (bufs s') (xss ! i)"
    using fh first_hit_cong [of _ "bufs s'" "bufs s"] assms(5) by simp
  moreover have "quiescent s'" using q assms(3) by (simp add: quiescent_def)
  ultimately show ?thesis using len p unfolding uniq_inv_def by blast
qed

lemma boot_uniq: "0 < nbuk \<Longrightarrow> uniq_inv nbuf nbuk (boot nbuf nbuk ticks dsk)"
proof -
  assume nbuk: "0 < nbuk"
  let ?s = "boot nbuf nbuk ticks dsk"
  from boot_inv [OF nbuk, of nbuf ticks dsk] have q: "quiescent ?s" by (simp add: cache_inv_def)
  have l: "linked ?s (boot_lists nbuf nbuk)"
    by (simp add: boot_def binit_linked [OF nbuk] bcache_zero_def)
  have "first_hit (bufs ?s) xs" for xs
    by (induction xs) (simp_all add: boot_fields [OF nbuk])
  moreover have "placed nbuk (bufs ?s) (boot_lists nbuf nbuk)"
    using nbuk by (auto simp: placed_def boot_fields [OF nbuk] hash_def boot_lists_def nth_Cons split: nat.splits)
  moreover have "length (boot_lists nbuf nbuk) = nbuk" using nbuk by (simp add: boot_lists_def)
  ultimately show ?thesis using q l boot_lists_partition [OF nbuk, of nbuf]
    unfolding uniq_inv_def by blast
qed

lemma bget_calls_uniq:
  "uniq_inv nbuf nbuk s \<Longrightarrow> 0 < nbuk \<Longrightarrow> bget_calls nbuk cs s = Inr s' \<Longrightarrow> uniq_inv nbuf nbuk s'"
proof (induction cs arbitrary: s)
  case Nil
  then show ?case by simp
next
  case (Cons c cs)
  obtain pid d n where c: "c = (pid, d, n)" by (cases c)
  from Cons.prems(3) c obtain b s1 where p: "bget_pick nbuk s d n = Inr (b, s1)"
    and r: "bget_calls nbuk cs (case acquiresleep pid b s1 of None \<Rightarrow> s1 | Some s2 \<Rightarrow> s2) = Inr s'"
    by (auto split: sum.splits)
  have i1: "uniq_inv nbuf nbuk s1" using bget_pick_uniq [OF Cons.prems(1,2) p] .
  have "uniq_inv nbuf nbuk (case acquiresleep pid b s1 of None \<Rightarrow> s1 | Some s2 \<Rightarrow> s2)"
  proof (cases "acquiresleep pid b s1")
    case None
    with i1 show ?thesis by simp
  next
    case (Some s2)
    have "uniq_inv nbuf nbuk s2"
      using i1 by (rule uniq_inv_frame) (simp_all add: acquiresleep_frame [OF Some] agree_def)
    with Some show ?thesis by simp
  qed
  from Cons.IH [OF this Cons.prems(2) r] show ?case .
qed

text \<open>
  When every \<open>bget\<close> has chosen its buffer before the next one starts, no two buffers
  with a non-zero \<open>refcnt\<close> hold the same \<open>(dev, blockno)\<close>.
\<close>

lemma sequential_identity_uniqueness:
  assumes "0 < nbuk" and "bget_calls nbuk cs (boot nbuf nbuk ticks dsk) = Inr s"
    and "a < nbuf" and "b < nbuf" and "a \<noteq> b"
    and "refcnt (bufs s a) \<noteq> 0" and "refcnt (bufs s b) \<noteq> 0"
  shows "(dev (bufs s a), blockno (bufs s a)) \<noteq> (dev (bufs s b), blockno (bufs s b))"
proof -
  have "uniq_inv nbuf nbuk s"
    using bget_calls_uniq [OF boot_uniq [OF assms(1)] assms(1,2)] .
  from uniq_inv_unique [OF this assms(3-7)] show ?thesis by (simp add: same_block_def)
qed

lemma sequential_identity_uniqueness_example:
  "0 < (2::nat) \<and>
   (\<exists>s. bget_calls 2 [(7, 1, 1), (8, 1, 1), (7, 1, 2)] (boot 3 2 0 (\<lambda>_ _. [])) = Inr s \<and>
        (1::nat) < 3 \<and> (2::nat) < 3 \<and> (1::nat) \<noteq> 2 \<and>
        refcnt (bufs s 1) \<noteq> 0 \<and> refcnt (bufs s 2) \<noteq> 0 \<and>
        (dev (bufs s 1), blockno (bufs s 1)) \<noteq> (dev (bufs s 2), blockno (bufs s 2)))"
proof -
  have "case bget_calls 2 [(7, 1, 1), (8, 1, 1), (7, 1, 2)] (boot 3 2 0 (\<lambda>_ _. [])) of
          Inl _ \<Rightarrow> False
        | Inr s \<Rightarrow> refcnt (bufs s 1) \<noteq> 0 \<and> refcnt (bufs s 2) \<noteq> 0"
    by code_simp
  then obtain s
    where r: "bget_calls 2 [(7, 1, 1), (8, 1, 1), (7, 1, 2)] (boot 3 2 0 (\<lambda>_ _. [])) = Inr s"
      and l1: "refcnt (bufs s 1) \<noteq> 0" and l2: "refcnt (bufs s 2) \<noteq> 0"
    by (auto split: sum.splits)
  have "0 < (2::nat)" "(1::nat) < 3" "(2::nat) < 3" "(1::nat) \<noteq> 2" by simp_all
  from sequential_identity_uniqueness [OF this(1) r this(2-4) l1 l2] r l1 l2 show ?thesis by simp
qed

text \<open>
  C5. Identity uniqueness does not survive calls that interleave where \<open>bget\<close> holds no
  spinlock. In the run \<open>interleaved_trace\<close> the victim of process 12 is relinked with its
  old identity \<open>(1, 3)\<close> when the re-scan finds block \<open>(1, 1)\<close> cached; by then buffer 1
  holds block \<open>(1, 3)\<close> for process 14, and the fast path of process 15 hits the stale
  victim. Buffers 1 and 2 both hold \<open>(1, 3)\<close> with \<open>refcnt\<close> 1, each locked by its caller.
\<close>

theorem interleaved_bgets_duplicate_block:
  "case interleaved_trace of
     Inl _ \<Rightarrow> False
   | Inr (hit2, lru_b2, b4, b1, b2, b5, s) \<Rightarrow>
       hit2 = None \<and> lru_b2 = Some 2 \<and> b4 = 1 \<and> b1 = 0 \<and> b2 = 0 \<and> b5 = 2 \<and>
       refcnt (bufs s 1) = 1 \<and> dev (bufs s 1) = 1 \<and> blockno (bufs s 1) = 3 \<and>
       slk (bufs s 1) = Some 14 \<and>
       refcnt (bufs s 2) = 1 \<and> dev (bufs s 2) = 1 \<and> blockno (bufs s 2) = 3 \<and>
       slk (bufs s 2) = Some 15 \<and>
       bucket_list 3 s 0 = Some [] \<and> bucket_list 3 s 1 = Some [2, 0, 1]"
  by code_simp

subsection \<open>What bget returns\<close>

lemma find_blk_result_aux:
  assumes "find_blk s p d n = Some r"
  shows "\<forall>b. r = Some b \<longrightarrow> matches (bufs s) d n b"
proof (rule find_blk.raw_induct
    [where P = "\<lambda>s p d n r. \<forall>b. r = Some b \<longrightarrow> matches (bufs s) d n b", OF _ assms])
  fix f s p d n r
  assume ih: "\<And>s p d n r. f s p d n = Some r \<Longrightarrow> \<forall>b. r = Some b \<longrightarrow> matches (bufs s) d n b"
    and body: "(case p of None \<Rightarrow> Some None
                | Some a \<Rightarrow> if dev (bufs s a) = d \<and> blockno (bufs s a) = n then Some (Some a)
                            else f s (nxt (bufs s a)) d n) = Some r"
  show "\<forall>b. r = Some b \<longrightarrow> matches (bufs s) d n b"
  proof (cases p)
    case None
    with body show ?thesis by auto
  next
    case (Some a)
    show ?thesis
    proof (cases "dev (bufs s a) = d \<and> blockno (bufs s a) = n")
      case True
      with Some body show ?thesis by (auto simp: matches_def)
    next
      case False
      with Some body have "f s (nxt (bufs s a)) d n = Some r" by simp
      then show ?thesis by (rule ih)
    qed
  qed
qed

lemma find_blk_result:
  "find_blk s p d n = Some r \<Longrightarrow> r = Some b \<Longrightarrow> matches (bufs s) d n b"
  using find_blk_result_aux by blast

lemma scan_buckets_frame:
  "scan_buckets is s v = Inr (s', v') \<Longrightarrow>
   bufs s' = bufs s \<and> heads s' = heads s \<and> disk s' = disk s \<and> io_log s' = io_log s"
proof (induction "is" arbitrary: s v)
  case Nil
  then show ?case by simp
next
  case (Cons i "is")
  from Cons.prems obtain s1 v1 where a: "acquire (BucketLock i) s = Inr s1"
    and c: "scan_chain s1 (HeadOf i) v = Some v1"
    by (auto split: sum.splits option.splits)
  from a have f1: "bufs s1 = bufs s" "heads s1 = heads s" "disk s1 = disk s" "io_log s1 = io_log s"
    by (auto simp: acquire_Inr)
  show ?case
  proof (cases "is_better v1")
    case True
    with Cons.prems a c have "scan_buckets is
        (if lru_buk_id v1 \<noteq> - 1 then release (BucketLock (nat (lru_buk_id v1))) s1 else s1)
        (v1\<lparr>lru_buk_id := int i, is_better := False\<rparr>) = Inr (s', v')" by simp
    from Cons.IH [OF this] f1 show ?thesis by (simp split: if_splits)
  next
    case False
    with Cons.prems a c have "scan_buckets is (release (BucketLock i) s1) (v1\<lparr>is_better := False\<rparr>) = Inr (s', v')"
      by simp
    from Cons.IH [OF this] f1 show ?thesis by simp
  qed
qed

lemma bget_steal_frame:
  assumes "bget_steal s v = Inr (s', lru_b)"
  shows "disk s' = disk s" "io_log s' = io_log s"
  using assms by (auto simp: bget_steal_def split: option.splits if_splits)

lemma bget_install_result:
  assumes "bget_install h s lru_b d n = Inr (b, s')"
  shows "matches (bufs s') d n b" "disk s' = disk s" "io_log s' = io_log s"
proof -
  from assms obtain s1 s2 where a1: "acquire BcacheLock s = Inr s1"
    and a2: "acquire (BucketLock h) s1 = Inr s2"
    by (auto simp: bget_install_def split: sum.splits)
  let ?s3 = "case lru_b of None \<Rightarrow> s2 | Some l \<Rightarrow> relink h l s2"
  from a1 a2 have io: "disk ?s3 = disk s" "io_log ?s3 = io_log s"
    by (auto simp: acquire_Inr split: option.splits)
  from assms a1 a2 obtain r where f: "find_blk ?s3 (heads ?s3 h) d n = Some r"
    by (auto simp: bget_install_def Let_def split: option.splits)
  show "matches (bufs s') d n b" "disk s' = disk s" "io_log s' = io_log s"
  proof (atomize (full), cases r)
    case None
    with assms a1 a2 f io show "matches (bufs s') d n b \<and> disk s' = disk s \<and> io_log s' = io_log s"
      by (auto simp: bget_install_def Let_def matches_def split: option.splits)
  next
    case (Some c)
    from find_blk_result [OF f Some] have "matches (bufs ?s3) d n c" .
    with Some assms a1 a2 f io show "matches (bufs s') d n b \<and> disk s' = disk s \<and> io_log s' = io_log s"
      by (auto simp: bget_install_def Let_def matches_def split: option.splits)
  qed
qed

lemma bget_fast_result_any:
  assumes "bget_fast nbuk s d n = Inr (r, s')"
  shows "disk s' = disk s" "io_log s' = io_log s" "r = Some b \<Longrightarrow> matches (bufs s') d n b"
proof -
  let ?h = "hash nbuk d n"
  from assms obtain s1 where a: "acquire (BucketLock ?h) s = Inr s1"
    by (auto simp: bget_fast_def Let_def split: sum.splits)
  from assms a obtain x where f: "find_blk s1 (heads s1 ?h) d n = Some x"
    by (auto simp: bget_fast_def Let_def split: option.splits)
  from a have io: "disk s1 = disk s" "io_log s1 = io_log s" by (auto simp: acquire_Inr)
  from assms a f io show "disk s' = disk s" "io_log s' = io_log s"
    by (auto simp: bget_fast_def Let_def split: option.splits)
  show "matches (bufs s') d n b" if "r = Some b"
  proof -
    from that assms a f have x: "x = Some b" and s': "s' = release (BucketLock ?h) (upd_buf b (\<lambda>x. x\<lparr>refcnt := refcnt x + 1\<rparr>) s1)"
      by (auto simp: bget_fast_def Let_def split: option.splits)
    from find_blk_result [OF f x] show ?thesis by (simp add: s' matches_def)
  qed
qed

lemma bget_pick_result:
  assumes "bget_pick nbuk s d n = Inr (b, s')"
  shows "matches (bufs s') d n b" "disk s' = disk s" "io_log s' = io_log s"
proof -
  from assms obtain r s1 where f: "bget_fast nbuk s d n = Inr (r, s1)"
    by (auto simp: bget_pick_def split: sum.splits)
  note ff = bget_fast_result_any [OF f]
  show "matches (bufs s') d n b" "disk s' = disk s" "io_log s' = io_log s"
  proof (atomize (full), cases r)
    case (Some c)
    with assms f ff show "matches (bufs s') d n b \<and> disk s' = disk s \<and> io_log s' = io_log s"
      by (auto simp: bget_pick_def)
  next
    case None
    with assms f have sl: "bget_slow nbuk s1 d n = Inr (b, s')" by (simp add: bget_pick_def)
    then obtain s2 v s3 lru_b where sc: "scan_buckets [0..<nbuk] s1 scan_init = Inr (s2, v)"
      and st: "bget_steal s2 v = Inr (s3, lru_b)"
      and ins: "bget_install (hash nbuk d n) s3 lru_b d n = Inr (b, s')"
      by (auto simp: bget_slow_def split: sum.splits)
    from scan_buckets_frame [OF sc] bget_steal_frame [OF st] bget_install_result [OF ins] ff(1,2)
    show "matches (bufs s') d n b \<and> disk s' = disk s \<and> io_log s' = io_log s" by simp
  qed
qed

lemma bget_result:
  assumes "bget nbuk pid s d n = Inr (b, s')"
  shows "dev (bufs s' b) = d" "blockno (bufs s' b) = n" "slk (bufs s' b) = Some pid"
    "disk s' = disk s" "io_log s' = io_log s"
proof -
  from assms obtain s1 where p: "bget_pick nbuk s d n = Inr (b, s1)"
    and a: "acquiresleep pid b s1 = Some s'"
    by (auto simp: bget_def split: sum.splits option.splits)
  from bget_pick_result [OF p] acquiresleep_frame [OF a]
  show "dev (bufs s' b) = d" "blockno (bufs s' b) = n" "slk (bufs s' b) = Some pid"
    "disk s' = disk s" "io_log s' = io_log s"
    by (simp_all add: matches_def)
qed

text \<open>
  C9. Read-through: when \<open>bget\<close> returns a buffer, \<open>bread\<close> returns the same buffer, still
  locked by the caller and valid; it reads the block from the disk into the buffer exactly
  once if the buffer was not valid when \<open>bget\<close> returned it, and not at all if it was.
\<close>

theorem bread_postcondition:
  assumes "bget nbuk pid s d n = Inr (b, s1)"
  shows "\<exists>s2. bread nbuk pid s d n = Inr (b, s2) \<and>
           valid (bufs s2 b) \<and> slk (bufs s2 b) = Some pid \<and>
           dev (bufs s2 b) = d \<and> blockno (bufs s2 b) = n \<and>
           io_log s2 = io_log s @ (if valid (bufs s1 b) then [] else [DiskRead d n]) \<and>
           (if valid (bufs s1 b) then s2 = s1 else data (bufs s2 b) = disk s d n)"
  using assms bget_result [OF assms]
  by (auto simp: bread_def virtio_disk_rw_def Let_def)

theorem bread_postcondition_witness:
  "\<exists>b s1. bget 2 7 (boot 3 2 0 (\<lambda>_ _. [1, 2, 3])) 1 1 = Inr (b, s1) \<and>
     (\<exists>s2. bread 2 7 (boot 3 2 0 (\<lambda>_ _. [1, 2, 3])) 1 1 = Inr (b, s2) \<and>
           valid (bufs s2 b) \<and> slk (bufs s2 b) = Some 7 \<and>
           dev (bufs s2 b) = 1 \<and> blockno (bufs s2 b) = 1 \<and>
           io_log s2 = io_log (boot 3 2 0 (\<lambda>_ _. [1, 2, 3])) @
                         (if valid (bufs s1 b) then [] else [DiskRead 1 1]) \<and>
           (if valid (bufs s1 b) then s2 = s1
            else data (bufs s2 b) = disk (boot 3 2 0 (\<lambda>_ _. [1, 2, 3])) 1 1))"
proof -
  have "case bget 2 7 (boot 3 2 0 (\<lambda>_ _. [1, 2, 3])) 1 1 of Inl _ \<Rightarrow> False | Inr _ \<Rightarrow> True"
    by code_simp
  then obtain b s1 where r: "bget 2 7 (boot 3 2 0 (\<lambda>_ _. [1, 2, 3])) 1 1 = Inr (b, s1)"
    by (auto split: sum.splits)
  from bread_postcondition [OF r] r show ?thesis by blast
qed

subsection \<open>The claims about single calls\<close>

text \<open>
  C7. Lock precondition: \<open>bwrite\<close> and \<open>brelse\<close> panic when the caller does not hold the
  sleep-lock of the buffer, and never panic when it does; \<open>brelse\<close> called by the holder
  releases the sleep-lock and takes exactly one off \<open>refcnt\<close>.
\<close>

theorem lock_precondition:
  "(\<not> holdingsleep pid b s \<longrightarrow>
      bwrite pid s b = Inl (Panic ''bwrite'') \<and>
      brelse nbuk pid ticks s b = Inl (Panic ''brelse'')) \<and>
   (holdingsleep pid b s \<longrightarrow>
      bwrite pid s b = Inr (virtio_disk_rw b True s) \<and>
      brelse nbuk pid ticks s b \<noteq> Inl (Panic ''brelse'') \<and>
      (\<not> spin s (BucketLock (hash nbuk (dev (bufs s b)) (blockno (bufs s b)))) \<longrightarrow>
         (\<exists>s'. brelse nbuk pid ticks s b = Inr s' \<and>
               slk (bufs s' b) = None \<and> \<not> holdingsleep pid b s' \<and>
               refcnt (bufs s' b) = refcnt (bufs s b) - 1 \<and>
               (refcnt (bufs s b) \<noteq> 0 \<longrightarrow> unat (refcnt (bufs s' b)) + 1 = unat (refcnt (bufs s b))))))"
proof (intro conjI impI)
  assume "\<not> holdingsleep pid b s"
  then show "bwrite pid s b = Inl (Panic ''bwrite'')"
    and "brelse nbuk pid ticks s b = Inl (Panic ''brelse'')"
    by (simp_all add: bwrite_def brelse_def)
next
  assume h: "holdingsleep pid b s"
  then show "bwrite pid s b = Inr (virtio_disk_rw b True s)" by (simp add: bwrite_def)
  from h show "brelse nbuk pid ticks s b \<noteq> Inl (Panic ''brelse'')"
    by (auto simp: brelse_def Let_def acquire_def split: sum.splits)
  assume f: "\<not> spin s (BucketLock (hash nbuk (dev (bufs s b)) (blockno (bufs s b))))"
  have u: "refcnt (bufs s b) \<noteq> 0 \<Longrightarrow> unat (refcnt (bufs s b) - 1) + 1 = unat (refcnt (bufs s b))"
    by (simp add: unat_minus_one unat_gt_0 [symmetric] Suc_leI)
  from h f u show "\<exists>s'. brelse nbuk pid ticks s b = Inr s' \<and>
               slk (bufs s' b) = None \<and> \<not> holdingsleep pid b s' \<and>
               refcnt (bufs s' b) = refcnt (bufs s b) - 1 \<and>
               (refcnt (bufs s b) \<noteq> 0 \<longrightarrow> unat (refcnt (bufs s' b)) + 1 = unat (refcnt (bufs s b)))"
    by (simp add: brelse_def Let_def acquire_def releasesleep_def holdingsleep_def)
qed

theorem lock_precondition_witness:
  "\<exists>b s. bget 2 7 (boot 3 2 0 (\<lambda>_ _. [])) 1 1 = Inr (b, s) \<and>
     holdingsleep 7 b s \<and> \<not> holdingsleep 8 b s \<and>
     bwrite 8 s b = Inl (Panic ''bwrite'') \<and> brelse 2 8 5 s b = Inl (Panic ''brelse'') \<and>
     bwrite 7 s b = Inr (virtio_disk_rw b True s) \<and>
     (\<exists>s'. brelse 2 7 5 s b = Inr s' \<and> slk (bufs s' b) = None \<and>
           refcnt (bufs s' b) = refcnt (bufs s b) - 1 \<and>
           unat (refcnt (bufs s' b)) + 1 = unat (refcnt (bufs s b)))"
proof -
  have "case bget 2 7 (boot 3 2 0 (\<lambda>_ _. [])) 1 1 of
          Inl _ \<Rightarrow> False
        | Inr (b, s) \<Rightarrow> holdingsleep 7 b s \<and> \<not> holdingsleep 8 b s \<and>
            \<not> spin s (BucketLock (hash 2 (dev (bufs s b)) (blockno (bufs s b)))) \<and>
            refcnt (bufs s b) \<noteq> 0"
    by code_simp
  then obtain b s where r: "bget 2 7 (boot 3 2 0 (\<lambda>_ _. [])) 1 1 = Inr (b, s)"
    and h: "holdingsleep 7 b s" "\<not> holdingsleep 8 b s"
      "\<not> spin s (BucketLock (hash 2 (dev (bufs s b)) (blockno (bufs s b))))"
      "refcnt (bufs s b) \<noteq> 0"
    by (auto split: sum.splits)
  from lock_precondition [of 7 b s 2 5] lock_precondition [of 8 b s 2 5] r h
  show ?thesis by blast
qed

text \<open>
  C10. \<open>binit\<close> writes neither \<open>dev\<close>, \<open>blockno\<close>, \<open>valid\<close> nor \<open>refcnt\<close>; after it every
  buffer is on the chain of bucket 0 with the zero identity, and the first \<open>bget(0, 0)\<close> is
  a hit on the fast path, on the buffer at the head of that chain, which was never read
  from the disk.
\<close>

theorem first_bget_hits_unread_buffer:
  assumes nbuk: "0 < nbuk" and nbuf: "0 < nbuf"
  shows "(\<forall>s c. dev (bufs (binit nbuf nbuk ticks s) c) = dev (bufs s c) \<and>
                blockno (bufs (binit nbuf nbuk ticks s) c) = blockno (bufs s c) \<and>
                valid (bufs (binit nbuf nbuk ticks s) c) = valid (bufs s c) \<and>
                refcnt (bufs (binit nbuf nbuk ticks s) c) = refcnt (bufs s c)) \<and>
         (\<forall>c<nbuf. dev (bufs (boot nbuf nbuk ticks dsk) c) = 0 \<and>
                   blockno (bufs (boot nbuf nbuk ticks dsk) c) = 0 \<and>
                   \<not> valid (bufs (boot nbuf nbuk ticks dsk) c) \<and>
                   refcnt (bufs (boot nbuf nbuk ticks dsk) c) = 0) \<and>
         bucket_list nbuf (boot nbuf nbuk ticks dsk) 0 = Some [0..<nbuf] \<and>
         hash nbuk 0 0 = 0 \<and>
         bget_fast nbuk (boot nbuf nbuk ticks dsk) 0 0 =
           Inr (Some 0, upd_buf 0 (\<lambda>x. x\<lparr>refcnt := refcnt x + 1\<rparr>) (boot nbuf nbuk ticks dsk)) \<and>
         (\<exists>s'. bget nbuk pid (boot nbuf nbuk ticks dsk) 0 0 = Inr (0, s') \<and>
               \<not> valid (bufs s' 0) \<and> refcnt (bufs s' 0) = 1 \<and> io_log s' = [] \<and>
               (\<forall>c<nbuf. dev (bufs s' c) = 0 \<and> blockno (bufs s' c) = 0))"
proof -
  let ?s = "boot nbuf nbuk ticks dsk"
  have l: "linked ?s (boot_lists nbuf nbuk)"
    by (simp add: boot_def binit_linked [OF nbuk] bcache_zero_def)
  have len: "length (boot_lists nbuf nbuk) = nbuk" using nbuk by (simp add: boot_lists_def)
  have bl: "bucket_list nbuf ?s 0 = Some [0..<nbuf]"
    using bucket_list_linked [OF l boot_lists_partition [OF nbuk], of 0] nbuk len
    by (simp add: boot_lists_def)
  have h0: "hash nbuk 0 0 = 0" by (simp add: hash_def)
  have c: "is_chain (bufs ?s) (heads ?s (hash nbuk 0 0)) [0..<nbuf]"
    using l [unfolded linked_def, rule_format, of 0] nbuk len by (simp add: h0 boot_lists_def)
  have q: "\<not> spin ?s (BucketLock (hash nbuk 0 0))"
    using boot_quiescent [OF nbuk] by (simp add: quiescent_def)
  have "[0..<nbuf] = 0 # [1..<nbuf]" using nbuf by (simp add: upt_conv_Cons)
  then have f: "find (matches (bufs ?s) 0 0) [0..<nbuf] = Some 0"
    by (simp add: matches_def boot_fields [OF nbuk])
  have fast: "bget_fast nbuk ?s 0 0 = Inr (Some 0, upd_buf 0 (\<lambda>x. x\<lparr>refcnt := refcnt x + 1\<rparr>) ?s)"
    using bget_fast_result [OF q c] f by simp
  have "\<exists>s'. bget nbuk pid ?s 0 0 = Inr (0, s') \<and>
               \<not> valid (bufs s' 0) \<and> refcnt (bufs s' 0) = 1 \<and> io_log s' = [] \<and>
               (\<forall>c<nbuf. dev (bufs s' c) = 0 \<and> blockno (bufs s' c) = 0)"
    using fast
    by (simp add: bget_def bget_pick_def acquiresleep_def boot_fields [OF nbuk])
       (simp add: boot_def binit_unfold [OF nbuk] binit_buckets_tail bcache_zero_def)
  with bl h0 fast show ?thesis
    by (simp add: binit_fields [OF nbuk] boot_fields [OF nbuk])
qed

theorem first_bget_hits_unread_buffer_witness:
  "0 < NBUK \<and> 0 < (30::nat) \<and>
   bucket_list 30 (boot 30 NBUK 0 (\<lambda>_ _. [])) 0 = Some [0..<30] \<and>
   hash NBUK 0 0 = 0 \<and>
   bget_fast NBUK (boot 30 NBUK 0 (\<lambda>_ _. [])) 0 0 =
     Inr (Some 0, upd_buf 0 (\<lambda>x. x\<lparr>refcnt := refcnt x + 1\<rparr>) (boot 30 NBUK 0 (\<lambda>_ _. []))) \<and>
   (\<exists>s'. bget NBUK 7 (boot 30 NBUK 0 (\<lambda>_ _. [])) 0 0 = Inr (0, s') \<and>
         \<not> valid (bufs s' 0) \<and> refcnt (bufs s' 0) = 1)"
proof -
  have "0 < NBUK" "0 < (30::nat)" by (simp_all add: NBUK_def)
  from first_bget_hits_unread_buffer [OF this, of 0 "\<lambda>_ _. []" 7] this show ?thesis by blast
qed

text \<open>
  C1. The scenario of section 8.6 of the specification, on a pool of two buffers and one
  bucket: \<open>bget(1, 10)\<close> gives A, \<open>bget(1, 20)\<close> gives B, A is released at tick 1 and B at
  tick 2. The next \<open>bget(1, 30)\<close> reuses B, whose stamp is the later one; A keeps block
  \<open>(1, 10)\<close>.
\<close>

theorem scenario_evicts_latest_release:
  "case bget 1 7 (boot 2 1 0 (\<lambda>_ _. [])) 1 10 of Inl _ \<Rightarrow> False | Inr (A, s1) \<Rightarrow>
   (case bget 1 7 s1 1 20 of Inl _ \<Rightarrow> False | Inr (B, s2) \<Rightarrow>
   (case brelse 1 7 1 s2 A of Inl _ \<Rightarrow> False | Inr s3 \<Rightarrow>
   (case brelse 1 7 2 s3 B of Inl _ \<Rightarrow> False | Inr s4 \<Rightarrow>
   (case bget 1 7 s4 1 30 of Inl _ \<Rightarrow> False | Inr (C, s5) \<Rightarrow>
      A = 1 \<and> B = 0 \<and> refcnt (bufs s4 A) = 0 \<and> refcnt (bufs s4 B) = 0 \<and>
      timestamp (bufs s4 A) = 1 \<and> timestamp (bufs s4 B) = 2 \<and>
      C = B \<and> C \<noteq> A \<and>
      dev (bufs s5 B) = 1 \<and> blockno (bufs s5 B) = 30 \<and> \<not> valid (bufs s5 B) \<and>
      dev (bufs s5 A) = 1 \<and> blockno (bufs s5 A) = 10 \<and> refcnt (bufs s5 A) = 0))))"
  by code_simp

text \<open>
  When both releases fall in the same tick the stamps are equal, and the scan keeps the
  buffer it examines last: A, which is behind B on the chain.
\<close>

lemma scenario_same_tick:
  "case bget 1 7 (boot 2 1 0 (\<lambda>_ _. [])) 1 10 of Inl _ \<Rightarrow> False | Inr (A, s1) \<Rightarrow>
   (case bget 1 7 s1 1 20 of Inl _ \<Rightarrow> False | Inr (B, s2) \<Rightarrow>
   (case brelse 1 7 1 s2 A of Inl _ \<Rightarrow> False | Inr s3 \<Rightarrow>
   (case brelse 1 7 1 s3 B of Inl _ \<Rightarrow> False | Inr s4 \<Rightarrow>
   (case bget 1 7 s4 1 30 of Inl _ \<Rightarrow> False | Inr (C, s5) \<Rightarrow>
      timestamp (bufs s4 A) = timestamp (bufs s4 B) \<and> heads s4 0 = Some B \<and>
      nxt (bufs s4 B) = Some A \<and> C = A))))"
  by code_simp

text \<open>
  C3. \<open>bunpin\<close> takes \<open>refcnt\<close> from 1 to 0 and leaves \<open>timestamp\<close> at the value \<open>binit\<close> gave
  it; \<open>brelse\<close> on the same buffer at tick 5 stamps it with 5.
\<close>

theorem bunpin_leaves_stamp:
  "case bget 1 7 (boot 1 1 0 (\<lambda>_ _. [])) 1 1 of Inl _ \<Rightarrow> False | Inr (b, s) \<Rightarrow>
     refcnt (bufs s b) = 1 \<and> timestamp (bufs s b) = 0 \<and>
     (case bunpin 1 s b of Inl _ \<Rightarrow> False | Inr s' \<Rightarrow>
        refcnt (bufs s' b) = 0 \<and> timestamp (bufs s' b) = 0) \<and>
     (case brelse 1 7 5 s b of Inl _ \<Rightarrow> False | Inr s' \<Rightarrow>
        refcnt (bufs s' b) = 0 \<and> timestamp (bufs s' b) = 5)"
  by code_simp

text \<open>
  C4. With the only buffer pinned, a \<open>bget\<close> that misses reads \<open>prev_lru_b->next\<close> through the
  null pointer (line 146) and never reaches \<open>panic("bget: no buffers")\<close>.
\<close>

theorem exhaustion_null_deref:
  "case bget 1 7 (boot 1 1 0 (\<lambda>_ _. [])) 1 1 of Inl _ \<Rightarrow> False | Inr (b, s) \<Rightarrow>
     refcnt (bufs s b) = 1 \<and>
     (case bget 1 8 s 1 2 of
        Inl e \<Rightarrow> e = NullDeref \<and> e \<noteq> Panic ''bget: no buffers''
      | Inr _ \<Rightarrow> False)"
  by code_simp

lemma bget_pick_outcomes:
  assumes "cache_inv nbuf nbuk s" and "0 < nbuk"
  shows "(\<exists>b s'. bget_pick nbuk s d n = Inr (b, s')) \<or> bget_pick nbuk s d n = Inl NullDeref"
proof -
  from assms obtain xss where q: "quiescent s" and len: "length xss = nbuk"
    and l: "linked s xss" and p: "partition_of nbuf xss"
    by (auto simp: cache_inv_def)
  from assms(2) len have pos: "0 < length xss" by simp
  from q l p pos show ?thesis
    by (cases rule: bget_pick_cases [where d = d and n = n]) (auto simp: len)
qed

lemma bunpin_stamp:
  "bunpin nbuk s b = Inr s' \<Longrightarrow> timestamp (bufs s' b) = timestamp (bufs s b)"
  by (auto simp: bunpin_def Let_def acquire_def split: if_splits)

lemma brelse_stamp:
  "brelse nbuk pid ticks s b = Inr s' \<Longrightarrow> refcnt (bufs s' b) = 0 \<Longrightarrow>
   timestamp (bufs s' b) = ticks"
  by (auto simp: brelse_def Let_def acquire_def releasesleep_def split: if_splits)

subsection \<open>The eviction scan and the re-scan\<close>

text \<open>
  C2. The eviction scan: on a miss with some buffer of count zero, the scan followed by
  line 146 picks a buffer \<open>a\<close> of count zero from the chain of a bucket \<open>k\<close>; no buffer of
  count zero on any chain has a larger stamp, and every buffer of count zero that the
  scan examines after \<open>a\<close> (later on the chain of \<open>k\<close>, or on the chain of a later bucket)
  has a strictly smaller stamp. When the scan is over the lock of bucket \<open>k\<close> is the one
  spinlock held.
\<close>

theorem scan_selects_victim:
  assumes chains: "\<forall>i<nbuk. is_chain (bufs s) (heads s i) (xss ! i)"
    and len: "length xss = nbuk"
    and idle: "\<forall>l. \<not> spin s l"
    and some: "\<exists>i<nbuk. \<exists>b\<in>set (xss ! i). refcnt (bufs s b) = 0"
  shows "\<exists>s1 v s2 k ys a zs.
           scan_buckets [0..<nbuk] s scan_init = Inr (s1, v) \<and>
           bget_steal s1 v = Inr (s2, Some a) \<and>
           k < nbuk \<and> xss ! k = ys @ a # zs \<and> lru_buk_id v = int k \<and>
           refcnt (bufs s a) = 0 \<and>
           (\<forall>i<nbuk. \<forall>b\<in>set (xss ! i).
              refcnt (bufs s b) = 0 \<longrightarrow> timestamp (bufs s b) \<le> timestamp (bufs s a)) \<and>
           (\<forall>b\<in>set zs. refcnt (bufs s b) = 0 \<longrightarrow> timestamp (bufs s b) < timestamp (bufs s a)) \<and>
           (\<forall>i. k < i \<and> i < nbuk \<longrightarrow>
              (\<forall>b\<in>set (xss ! i).
                 refcnt (bufs s b) = 0 \<longrightarrow> timestamp (bufs s b) < timestamp (bufs s a))) \<and>
           (\<forall>l. spin s1 l \<longleftrightarrow> l = BucketLock k)"
proof -
  have q: "quiescent s" using idle by (simp add: quiescent_def)
  have l: "linked s xss" using chains len by (simp add: linked_def)
  from scan_quiescent [OF q l] len obtain v
    where sc: "scan_buckets [0..<nbuk] s scan_init = Inr (s\<lparr>spin := scan_locks s v\<rparr>, v)"
      and inv: "scan_inv (bufs s) xss nbuk v" by auto
  from some have "\<exists>i<nbuk. \<exists>b\<in>set (xss ! i). free (bufs s) b" by (simp add: free_def)
  with inv obtain k ys a zs where ch: "chosen (bufs s) xss nbuk k ys a zs"
    and lb: "lru_buk_id v = int k" and pl: "prev_lru_b v = Some (prev_ptr (HeadOf k) ys)"
    by (auto simp: scan_inv_def)
  from ch have k: "k < nbuk" and xs: "xss ! k = ys @ a # zs" by (simp_all add: chosen_def)
  let ?s1 = "s\<lparr>spin := scan_locks s v\<rparr>"
  have "is_chain (bufs s) (heads s k) (xss ! k)" using chains k by simp
  then have c1: "is_chain (bufs ?s1) (heads ?s1 k) (ys @ a # zs)" using xs by simp
  note st = steal_chosen [OF c1 pl lb]
  have locks: "\<forall>l. spin ?s1 l \<longleftrightarrow> l = BucketLock k"
    using idle lb by (auto simp: scan_locks_def split: spinlock.splits)
  from ch have "refcnt (bufs s a) = 0"
    and "\<forall>i<nbuk. \<forall>b\<in>set (xss ! i).
           refcnt (bufs s b) = 0 \<longrightarrow> timestamp (bufs s b) \<le> timestamp (bufs s a)"
    and "\<forall>b\<in>set zs. refcnt (bufs s b) = 0 \<longrightarrow> timestamp (bufs s b) < timestamp (bufs s a)"
    and "\<forall>i. k < i \<and> i < nbuk \<longrightarrow>
           (\<forall>b\<in>set (xss ! i).
              refcnt (bufs s b) = 0 \<longrightarrow> timestamp (bufs s b) < timestamp (bufs s a))"
    by (simp_all add: chosen_def free_def)
  with sc st k xs lb locks show ?thesis by blast
qed

theorem scan_selects_victim_witness:
  "is_chain (bufs released_state) (heads released_state 0) [0, 1] \<and>
   is_chain (bufs released_state) (heads released_state 1) [2] \<and>
   (\<forall>l. \<not> spin released_state l) \<and> refcnt (bufs released_state 2) = 0 \<and>
   (\<exists>s1 v s2 k ys a zs.
      scan_buckets [0..<2] released_state scan_init = Inr (s1, v) \<and>
      bget_steal s1 v = Inr (s2, Some a) \<and>
      k < 2 \<and> [[0, 1], [2]] ! k = ys @ a # zs \<and> lru_buk_id v = int k \<and>
      refcnt (bufs released_state a) = 0 \<and>
      (\<forall>i<2. \<forall>b\<in>set ([[0, 1], [2]] ! i).
         refcnt (bufs released_state b) = 0 \<longrightarrow>
         timestamp (bufs released_state b) \<le> timestamp (bufs released_state a)) \<and>
      (\<forall>b\<in>set zs. refcnt (bufs released_state b) = 0 \<longrightarrow>
         timestamp (bufs released_state b) < timestamp (bufs released_state a)) \<and>
      (\<forall>i. k < i \<and> i < 2 \<longrightarrow>
         (\<forall>b\<in>set ([[0, 1], [2]] ! i).
            refcnt (bufs released_state b) = 0 \<longrightarrow>
            timestamp (bufs released_state b) < timestamp (bufs released_state a))) \<and>
      (\<forall>l. spin s1 l \<longleftrightarrow> l = BucketLock k))"
proof -
  have c0: "is_chain (bufs released_state) (heads released_state 0) [0, 1]" by code_simp
  have c1: "is_chain (bufs released_state) (heads released_state 1) [2]" by code_simp
  have f: "refcnt (bufs released_state 2) = 0" by code_simp
  have "case run 2 [Bget 7 1 1, Brelse 7 5 2] (boot 3 2 0 (\<lambda>_ _. [])) of
          Inl _ \<Rightarrow> False | Inr _ \<Rightarrow> True"
    by code_simp
  then have r: "run 2 [Bget 7 1 1, Brelse 7 5 2] (boot 3 2 0 (\<lambda>_ _. [])) = Inr released_state"
    by (cases "run 2 [Bget 7 1 1, Brelse 7 5 2] (boot 3 2 0 (\<lambda>_ _. []))")
       (simp_all add: released_state_def)
  have chains: "\<forall>i<2. is_chain (bufs released_state) (heads released_state i) ([[0, 1], [2]] ! i)"
  proof (intro allI impI)
    fix i :: nat
    assume "i < 2"
    then have "i = 0 \<or> i = 1" by auto
    with c0 c1 show "is_chain (bufs released_state) (heads released_state i) ([[0, 1], [2]] ! i)"
      by (auto simp del: is_chain.simps)
  qed
  have len: "length [[0, 1], [2::nat]] = 2" by simp
  have "cache_inv 3 2 released_state" using run_inv [OF boot_inv _ r] by simp
  then have idle: "\<forall>l. \<not> spin released_state l" by (simp add: cache_inv_def quiescent_def)
  have some: "\<exists>i<2. \<exists>b\<in>set ([[0, 1], [2]] ! i). refcnt (bufs released_state b) = 0"
    using f by (intro exI [of _ 1]) simp
  note c = scan_selects_victim [OF chains len idle some]
  show ?thesis by (intro conjI) (rule c0 c1 idle f c)+
qed

text \<open>
  C6. The search of the target bucket after the migration starts at the victim \<open>a\<close>, which
  has just been linked at the head. When it finds a buffer \<open>b\<close> of the block, \<open>bget\<close> takes
  \<open>b\<close> with \<open>refcnt\<close> one higher, and the victim stays at the head of the chain of the
  target bucket with the identity and the \<open>valid\<close> flag it had. When the victim holds
  another block, \<open>b\<close> is a buffer that was on the chain and the victim keeps count zero;
  when the victim holds the block itself, it is the buffer found and its count is 1.
\<close>

theorem rescan_hit_keeps_victim_linked:
  assumes "\<not> spin s BcacheLock" and "\<not> spin s (BucketLock h)"
    and "is_chain (bufs s) (heads s h) xs" and "a \<notin> set xs"
    and "find (matches (bufs s) d n) (a # xs) = Some b"
    and "refcnt (bufs s a) = 0"
  shows "\<exists>s'. bget_install h s (Some a) d n = Inr (b, s') \<and>
           refcnt (bufs s' b) = refcnt (bufs s b) + 1 \<and>
           heads s' h = Some a \<and> is_chain (bufs s') (heads s' h) (a # xs) \<and>
           dev (bufs s' a) = dev (bufs s a) \<and> blockno (bufs s' a) = blockno (bufs s a) \<and>
           valid (bufs s' a) = valid (bufs s a) \<and> spin s' = spin s \<and>
           (if matches (bufs s) d n a then b = a \<and> refcnt (bufs s' a) = 1
            else b \<in> set xs \<and> refcnt (bufs s' a) = 0)"
proof -
  let ?sm = "relink h a s"
  from bget_install_victim [OF assms(1-4), of d n] obtain b' s'
    where r: "bget_install h s (Some a) d n = Inr (b', s')"
      and i: "installed ?sm a xs d n b' s'" by blast
  have m: "matches (bufs ?sm) d n = matches (bufs s) d n"
    by (auto simp: matches_def fun_eq_iff)
  from assms(5) have "find (matches (bufs ?sm) d n) (a # xs) = Some b" unfolding m .
  with i have b': "b' = b"
    and bs: "bufs s' = (bufs ?sm)(b := (bufs ?sm b)\<lparr>refcnt := refcnt (bufs ?sm b) + 1\<rparr>)"
    and hd: "heads s' = heads ?sm" and sp: "spin s' = spin s"
    by (simp_all add: installed_def)
  have nx: "nxt (bufs s' c) = nxt (bufs ?sm c)" for c
    using installed_nxt [OF i] .
  have ch: "is_chain (bufs s') (Some a) (a # xs)"
  proof -
    have "is_chain (bufs s') (heads s h) xs = is_chain (bufs s) (heads s h) xs"
      using assms(4) by (intro is_chain_cong) (auto simp: nx)
    moreover have "nxt (bufs s' a) = heads s h" by (simp add: nx)
    ultimately show ?thesis using assms(3) by simp
  qed
  have cases: "if matches (bufs s) d n a then b = a \<and> refcnt (bufs s' a) = 1
               else b \<in> set xs \<and> refcnt (bufs s' a) = 0"
  proof (cases "matches (bufs s) d n a")
    case True
    with assms(5) have "b = a" by simp
    with True assms(6) show ?thesis by (simp add: bs)
  next
    case False
    with assms(5) have "find (matches (bufs s) d n) xs = Some b" by simp
    then have "b \<in> set xs" by (auto simp: find_Some_iff)
    with assms(4) have "a \<noteq> b" by auto
    with False \<open>b \<in> set xs\<close> assms(6) show ?thesis by (simp add: bs)
  qed
  have "refcnt (bufs s' b) = refcnt (bufs s b) + 1" by (simp add: bs)
  moreover have "dev (bufs s' a) = dev (bufs s a)" "blockno (bufs s' a) = blockno (bufs s a)"
    "valid (bufs s' a) = valid (bufs s a)" by (simp_all add: bs)
  ultimately show ?thesis using r b' hd sp ch cases by simp
qed

theorem rescan_hit_keeps_victim_linked_witness:
  "\<not> spin raced_state BcacheLock \<and> \<not> spin raced_state (BucketLock 1) \<and>
   is_chain (bufs raced_state) (heads raced_state 1) [2] \<and> 1 \<notin> set [2::nat] \<and>
   find (matches (bufs raced_state) 1 1) [1, 2] = Some 2 \<and>
   refcnt (bufs raced_state 1) = 0 \<and>
   (\<exists>s'. bget_install 1 raced_state (Some 1) 1 1 = Inr (2, s') \<and>
      refcnt (bufs s' 2) = refcnt (bufs raced_state 2) + 1 \<and>
      heads s' 1 = Some 1 \<and> is_chain (bufs s') (heads s' 1) [1, 2] \<and>
      dev (bufs s' 1) = dev (bufs raced_state 1) \<and>
      blockno (bufs s' 1) = blockno (bufs raced_state 1) \<and>
      valid (bufs s' 1) = valid (bufs raced_state 1) \<and> spin s' = spin raced_state \<and>
      (if matches (bufs raced_state) 1 1 1 then (2::nat) = 1 \<and> refcnt (bufs s' 1) = 1
       else (2::nat) \<in> set [2] \<and> refcnt (bufs s' 1) = 0))"
proof -
  have h1: "\<not> spin raced_state BcacheLock" by code_simp
  have h2: "\<not> spin raced_state (BucketLock 1)" by code_simp
  have h3: "is_chain (bufs raced_state) (heads raced_state 1) [2]" by code_simp
  have h4: "(1::nat) \<notin> set [2]" by simp
  have h5: "find (matches (bufs raced_state) 1 1) [1, 2] = Some 2" by code_simp
  have h6: "refcnt (bufs raced_state 1) = 0" by code_simp
  note c = rescan_hit_keeps_victim_linked [OF h1 h2 h3 h4 h5 h6]
  show ?thesis by (intro conjI) (rule h1 h2 h3 h4 h5 h6 c)+
qed

text \<open>
  The second case happens: in \<open>refound_state\<close> the victim is buffer 2, which holds the
  block \<open>(1, 1)\<close> that is asked for. The search finds the victim and \<open>bget\<close> takes it with
  \<open>refcnt\<close> 1, not 0.
\<close>

theorem rescan_hit_on_victim_counterexample:
  "map_sum id fst (bget_fast 2 (boot 3 2 0 (\<lambda>_ _. [])) 1 1) = Inr None \<and>
   map_sum id snd refound_steal = Inr (Some 2) \<and>
   \<not> spin refound_state BcacheLock \<and> \<not> spin refound_state (BucketLock 1) \<and>
   hash 2 1 1 = 1 \<and>
   is_chain (bufs refound_state) (heads refound_state 1) [] \<and>
   refcnt (bufs refound_state 2) = 0 \<and>
   find (matches (bufs refound_state) 1 1) [2] = Some 2 \<and>
   \<not> isl (bget_install 1 refound_state (Some 2) 1 1) \<and>
   fst (projr (bget_install 1 refound_state (Some 2) 1 1)) = 2 \<and>
   heads (snd (projr (bget_install 1 refound_state (Some 2) 1 1))) 1 = Some 2 \<and>
   refcnt (bufs (snd (projr (bget_install 1 refound_state (Some 2) 1 1))) 2) = 1 \<and>
   refcnt (bufs (snd (projr (bget_install 1 refound_state (Some 2) 1 1))) 2) \<noteq> 0"
  by code_simp

end
